theory Spec2Isabelle
  imports Main
begin

section \<open>The inactivity monitor of FireWall-gAmA (src/core/inactivity_monitor.py)\<close>

text \<open>
  The monitor keeps two module-level globals: the dictionary \<open>last_activity\<close> (address to
  time of the last packet or seed) and the set \<open>blocked_ips\<close>. The sniffer thread writes
  \<open>last_activity\<close> from \<open>packet_handler\<close>; the main thread runs \<open>idle_checker\<close>, an endless
  loop whose body discovers neighbours, seeds unknown ones, and evaluates every entry.

  Modelling decisions:
  \<^item> An address is a Python \<open>str\<close>, here a \<open>string\<close> (code points below 256).
  \<^item> A \<open>datetime\<close> is an integer number of microseconds (the resolution of \<open>datetime\<close>), so
    \<open>(now - last).total_seconds() >= IDLE_TIMEOUT\<close> is the integer comparison
    \<open>IDLE_TIMEOUT * 1000000 \<le> now - last\<close>; for thresholds of the size the source uses
    (10 s, 3600 s) the float quotient compares with the integer threshold in the same way.
    The clock is an input: each frame and each cycle carries the value \<open>datetime.now()\<close>
    returned, and nothing forces it to increase.
  \<^item> The dictionary is an association list in insertion order with distinct keys, which is
    the order \<open>list(last_activity.items())\<close> yields.
  \<^item> Every call that leaves the process (log, notification, sound, firewall command, ARP
    query) is recorded in a trace together with its outcome: \<open>None\<close> when it returned,
    \<open>Some x\<close> when it raised the exception \<open>x\<close> (an instance of \<open>Exception\<close>, which is what
    the handlers of the source catch). Which calls raise is an input, the record \<open>env\<close> of
    one cycle. An uncaught exception ends \<open>idle_checker\<close>.
  \<^item> The two module constants the source calls its configuration, \<open>IDLE_TIMEOUT\<close> and
    \<open>AGGRESSIVE_MODE\<close>, are the fields of a record \<open>config\<close>; \<open>default_config\<close> holds the
    values of the source.
  \<^item> The frames of the sniffer thread are handled between the cycles of the main thread; the
    two threads are not interleaved inside a cycle.
\<close>

subsection \<open>Data\<close>

type_synonym ip = string
type_synonym time = int

datatype exn = IndexError | Raised string

datatype os_type = Windows | Linux | Other_os

record config =
  IDLE_TIMEOUT :: int
  AGGRESSIVE_MODE :: bool

definition default_config :: config where
  "default_config = \<lparr>IDLE_TIMEOUT = 10, AGGRESSIVE_MODE = True\<rparr>"

text \<open>The five messages the monitor passes to \<open>log\<close>.\<close>

datatype logmsg =
    Msg_blocked ip
  | Msg_block_failed ip exn
  | Msg_arp_failed exn
  | Msg_discovered ip
  | Msg_idle ip int

datatype direction = Dir_in | Dir_out

text \<open>
  The calls of one run. \<open>Enter_block_ip a\<close> is not an external call: it marks the entry
  into \<open>block_ip(a)\<close>, the enforcement action, which on a platform that is neither Windows
  nor Linux runs no command at all.
\<close>

datatype call =
    Log logmsg
  | Notify ip int
  | Playsound ip
  | Print_sound_error ip exn
  | Netsh direction ip
  | Iptables direction ip
  | Arp_a
  | Arp_n
  | Enter_block_ip ip

type_synonym event = "call \<times> exn option"

record world =
  last_activity :: "(ip \<times> time) list"
  blocked_ips :: "ip set"
  trace :: "event list"

definition init_world :: world where
  "init_world = \<lparr>last_activity = [], blocked_ips = {}, trace = []\<rparr>"

text \<open>
  What the environment answers during one cycle: the platform, the text \<open>arp\<close> prints,
  whether the sound file exists, and for every call whether it raises. Within one cycle no
  call is made twice (the keys of a dictionary and the elements of a set are distinct, and
  \<open>Playsound\<close> carries the address being handled), so a function of the call is general.
\<close>

record env =
  os :: os_type
  arp_stdout :: string
  sound_file_exists :: bool
  raises :: "call \<Rightarrow> exn option"

definition broadcast :: ip where
  "broadcast = ''255.255.255.255''"

subsection \<open>Dictionary operations\<close>

text \<open>\<open>d[k] = v\<close>: an existing key keeps its position, a new key goes to the end.\<close>

fun dict_set :: "'k \<Rightarrow> 'v \<Rightarrow> ('k \<times> 'v) list \<Rightarrow> ('k \<times> 'v) list" where
  "dict_set k v [] = [(k, v)]"
| "dict_set k v ((k', v') # d) = (if k' = k then (k, v) # d else (k', v') # dict_set k v d)"

text \<open>\<open>k in d\<close>.\<close>

definition dict_mem :: "'k \<Rightarrow> ('k \<times> 'v) list \<Rightarrow> bool" where
  "dict_mem k d = (map_of d k \<noteq> None)"

subsection \<open>Effects\<close>

definition emit :: "call \<Rightarrow> exn option \<Rightarrow> world \<Rightarrow> world" where
  "emit c r w = w\<lparr>trace := trace w @ [(c, r)]\<rparr>"

definition perform :: "env \<Rightarrow> call \<Rightarrow> world \<Rightarrow> exn option \<times> world" where
  "perform e c w = (raises e c, emit c (raises e c) w)"

text \<open>Sequencing: an exception skips the rest.\<close>

definition then_do ::
  "exn option \<times> world \<Rightarrow> (world \<Rightarrow> exn option \<times> world) \<Rightarrow> exn option \<times> world" where
  "then_do m f = (case m of (Some x, w) \<Rightarrow> (Some x, w) | (None, w) \<Rightarrow> f w)"

text \<open>\<open>log(msg)\<close> prints the line and appends it to the log file; either may raise.\<close>

definition log :: "env \<Rightarrow> logmsg \<Rightarrow> world \<Rightarrow> exn option \<times> world" where
  "log e m w = perform e (Log m) w"

text \<open>\<open>notify(title, message)\<close>: the call of \<open>notification.notify\<close>, unguarded.\<close>

definition notify :: "env \<Rightarrow> ip \<Rightarrow> int \<Rightarrow> world \<Rightarrow> exn option \<times> world" where
  "notify e a t w = perform e (Notify a t) w"

text \<open>
  \<open>play_sound()\<close>: only if the file exists; an exception of \<open>playsound\<close> is caught and
  printed. That \<open>print\<close> is not guarded: when it raises, the exception leaves the function.
  The address is the one being handled (it selects the environment's answer).
\<close>

definition play_sound :: "env \<Rightarrow> ip \<Rightarrow> world \<Rightarrow> exn option \<times> world" where
  "play_sound e a w =
     (if sound_file_exists e then
        (case perform e (Playsound a) w of
           (None, w1) \<Rightarrow> (None, w1)
         | (Some x, w1) \<Rightarrow> perform e (Print_sound_error a x) w1)
      else (None, w))"

text \<open>\<open>subprocess.run(..., check=True)\<close> one command after the other.\<close>

fun run_commands :: "env \<Rightarrow> call list \<Rightarrow> world \<Rightarrow> exn option \<times> world" where
  "run_commands e [] w = (None, w)"
| "run_commands e (c # cs) w =
     (case perform e c w of
        (Some x, w1) \<Rightarrow> (Some x, w1)
      | (None, w1) \<Rightarrow> run_commands e cs w1)"

definition firewall_commands :: "os_type \<Rightarrow> ip \<Rightarrow> call list" where
  "firewall_commands t a =
     (case t of
        Windows \<Rightarrow> [Netsh Dir_in a, Netsh Dir_out a]
      | Linux \<Rightarrow> [Iptables Dir_in a, Iptables Dir_out a]
      | Other_os \<Rightarrow> [])"

text \<open>
  \<open>block_ip(ip)\<close>: the commands and the success line are inside \<open>try\<close>; the handler logs
  the failure, and an exception of that second \<open>log\<close> leaves the function.
\<close>

definition block_ip :: "env \<Rightarrow> ip \<Rightarrow> world \<Rightarrow> exn option \<times> world" where
  "block_ip e a w =
     (case then_do (run_commands e (firewall_commands (os e) a) (emit (Enter_block_ip a) None w))
                   (log e (Msg_blocked a)) of
        (None, w1) \<Rightarrow> (None, w1)
      | (Some x, w1) \<Rightarrow> log e (Msg_block_failed a x) w1)"

subsection \<open>Packet sniffer\<close>

text \<open>A captured frame: \<open>None\<close> without an IP layer, else source and destination.\<close>

type_synonym packet = "(ip \<times> ip) option"

definition packet_handler :: "time \<Rightarrow> packet \<Rightarrow> world \<Rightarrow> world" where
  "packet_handler now pkt w =
     (case pkt of
        None \<Rightarrow> w
      | Some (src, dst) \<Rightarrow>
          w\<lparr>last_activity := dict_set dst now (dict_set src now (last_activity w))\<rparr>)"

subsection \<open>ARP discovery\<close>

definition is_space :: "char \<Rightarrow> bool" where
  "is_space c = (c \<in> set [CHR 0x09, CHR 0x0A, CHR 0x0B, CHR 0x0C, CHR 0x0D,
                          CHR 0x1C, CHR 0x1D, CHR 0x1E, CHR 0x1F, CHR 0x20, CHR 0x85, CHR 0xA0])"

definition is_linebreak :: "char \<Rightarrow> bool" where
  "is_linebreak c = (c \<in> set [CHR 0x0A, CHR 0x0B, CHR 0x0C, CHR 0x0D,
                              CHR 0x1C, CHR 0x1D, CHR 0x1E, CHR 0x85])"

definition is_digit :: "char \<Rightarrow> bool" where
  "is_digit c = (c \<in> set ''0123456789'')"

text \<open>\<open>str.splitlines()\<close>: CR LF is one boundary; no empty last line.\<close>

fun splitlines_from :: "string \<Rightarrow> string \<Rightarrow> string list" where
  "splitlines_from cur [] = (if cur = [] then [] else [cur])"
| "splitlines_from cur (c # cs) =
     (if c = CHR 0x0D \<and> cs \<noteq> [] \<and> hd cs = CHR 0x0A then cur # splitlines_from [] (tl cs)
      else if is_linebreak c then cur # splitlines_from [] cs
      else splitlines_from (cur @ [c]) cs)"

definition str_splitlines :: "string \<Rightarrow> string list" where
  "str_splitlines s = splitlines_from [] s"

text \<open>\<open>str.split()\<close> without argument: the maximal runs of non-whitespace.\<close>

fun split_from :: "string \<Rightarrow> string \<Rightarrow> string list" where
  "split_from cur [] = (if cur = [] then [] else [cur])"
| "split_from cur (c # cs) =
     (if is_space c then (if cur = [] then split_from [] cs else cur # split_from [] cs)
      else split_from (cur @ [c]) cs)"

definition str_split :: "string \<Rightarrow> string list" where
  "str_split s = split_from [] s"

definition str_strip :: "string \<Rightarrow> string" where
  "str_strip s = rev (dropWhile is_space (rev (dropWhile is_space s)))"

definition str_startswith :: "string \<Rightarrow> string \<Rightarrow> bool" where
  "str_startswith s p = (take (length p) s = p)"

text \<open>
  \<open>re.match(r"\d+\.\d+\.\d+\.\d+", s)\<close>: anchored at the start only. A digit is never a
  dot, so the greedy \<open>\d+\<close> never backtracks.
\<close>

definition digits1 :: "string \<Rightarrow> string option" where
  "digits1 s = (if takeWhile is_digit s = [] then None else Some (dropWhile is_digit s))"

definition dot1 :: "string \<Rightarrow> string option" where
  "dot1 s = (case s of [] \<Rightarrow> None | c # r \<Rightarrow> if c = CHR ''.'' then Some r else None)"

definition match_dotted_quad :: "string \<Rightarrow> bool" where
  "match_dotted_quad s =
     (Option.bind (Option.bind (Option.bind (Option.bind (Option.bind (Option.bind
        (digits1 s) dot1) digits1) dot1) digits1) dot1) digits1 \<noteq> None)"

text \<open>
  \<open>ips.add(ip)\<close>. The set \<open>ips\<close> is a duplicate-free list in order of first insertion;
  Python iterates a set in an order of its own, so the lemmas about the seeding loop are
  proved for every list.
\<close>

definition set_add :: "'a \<Rightarrow> 'a list \<Rightarrow> 'a list" where
  "set_add x xs = (if x \<in> set xs then xs else xs @ [x])"

text \<open>The Windows branch, \<open>arp -a\<close>. \<open>parts[0]\<close> raises on an empty list.\<close>

fun parse_windows :: "string list \<Rightarrow> ip list \<Rightarrow> exn option \<times> ip list" where
  "parse_windows [] ips = (None, ips)"
| "parse_windows (l # ls) ips =
     (let line = str_strip l in
      if line = [] \<or> str_startswith line ''Interface'' \<or> str_startswith line ''Internet''
      then parse_windows ls ips
      else (case str_split line of
              [] \<Rightarrow> (Some IndexError, ips)
            | a # _ \<Rightarrow> parse_windows ls (if match_dotted_quad a then set_add a ips else ips)))"

text \<open>The other branch, \<open>arp -n\<close>.\<close>

fun parse_unix :: "string list \<Rightarrow> ip list \<Rightarrow> ip list" where
  "parse_unix [] ips = ips"
| "parse_unix (l # ls) ips =
     (case str_split l of
        [] \<Rightarrow> parse_unix ls ips
      | a # _ \<Rightarrow> parse_unix ls (if match_dotted_quad a then set_add a ips else ips))"

text \<open>The body of \<open>try\<close> in \<open>discover_devices\<close>: the exception, if any, and \<open>ips\<close> so far.\<close>

definition arp_query :: "env \<Rightarrow> world \<Rightarrow> (exn option \<times> ip list) \<times> world" where
  "arp_query e w =
     (if os e = Windows then
        (case perform e Arp_a w of
           (Some x, w1) \<Rightarrow> ((Some x, []), w1)
         | (None, w1) \<Rightarrow> (parse_windows (str_splitlines (arp_stdout e)) [], w1))
      else
        (case perform e Arp_n w of
           (Some x, w1) \<Rightarrow> ((Some x, []), w1)
         | (None, w1) \<Rightarrow> ((None, parse_unix (str_splitlines (arp_stdout e)) []), w1)))"

text \<open>
  \<open>discover_devices()\<close>: \<open>Inr ips\<close> when it returns, \<open>Inl x\<close> when the \<open>log\<close> of the
  handler raises \<open>x\<close>.
\<close>

definition discover_devices :: "env \<Rightarrow> world \<Rightarrow> (exn + ip list) \<times> world" where
  "discover_devices e w =
     (case arp_query e w of
        ((None, ips), w1) \<Rightarrow> (Inr ips, w1)
      | ((Some x, ips), w1) \<Rightarrow>
          (case log e (Msg_arp_failed x) w1 of
             (None, w2) \<Rightarrow> (Inr ips, w2)
           | (Some y, w2) \<Rightarrow> (Inl y, w2)))"

subsection \<open>Idle checker\<close>

text \<open>The first \<open>for\<close> loop of a cycle: skip the broadcast address, seed unknown addresses.\<close>

fun seed_devices :: "env \<Rightarrow> time \<Rightarrow> ip list \<Rightarrow> world \<Rightarrow> exn option \<times> world" where
  "seed_devices e now [] w = (None, w)"
| "seed_devices e now (a # ips) w =
     (if a = broadcast then seed_devices e now ips w
      else if \<not> dict_mem a (last_activity w) then
        (case log e (Msg_discovered a) (w\<lparr>last_activity := dict_set a now (last_activity w)\<rparr>) of
           (Some x, w1) \<Rightarrow> (Some x, w1)
         | (None, w1) \<Rightarrow> seed_devices e now ips w1)
      else seed_devices e now ips w)"

text \<open>The body of the second \<open>for\<close> loop, for one item of the snapshot.\<close>

definition check_ip :: "config \<Rightarrow> env \<Rightarrow> time \<Rightarrow> ip \<times> time \<Rightarrow> world \<Rightarrow> exn option \<times> world" where
  "check_ip cfg e now item w =
     (case item of (a, seen) \<Rightarrow>
        if a = broadcast then (None, w)
        else if IDLE_TIMEOUT cfg * 1000000 \<le> now - seen \<and> a \<notin> blocked_ips w then
          then_do (log e (Msg_idle a (IDLE_TIMEOUT cfg)) w) (\<lambda>w1.
          then_do (notify e a (IDLE_TIMEOUT cfg) w1) (\<lambda>w2.
          then_do (play_sound e a w2) (\<lambda>w3.
          then_do (if AGGRESSIVE_MODE cfg then block_ip e a w3 else (None, w3)) (\<lambda>w4.
          (None, w4\<lparr>blocked_ips := insert a (blocked_ips w4)\<rparr>)))))
        else (None, w))"

text \<open>The second \<open>for\<close> loop, over \<open>list(last_activity.items())\<close>.\<close>

fun evaluate :: "config \<Rightarrow> env \<Rightarrow> time \<Rightarrow> (ip \<times> time) list \<Rightarrow> world \<Rightarrow> exn option \<times> world" where
  "evaluate cfg e now [] w = (None, w)"
| "evaluate cfg e now (item # items) w =
     (case check_ip cfg e now item w of
        (Some x, w1) \<Rightarrow> (Some x, w1)
      | (None, w1) \<Rightarrow> evaluate cfg e now items w1)"

text \<open>One pass through the body of \<open>while True\<close> (the sleep at its end changes no state).\<close>

definition idle_cycle :: "config \<Rightarrow> env \<Rightarrow> time \<Rightarrow> world \<Rightarrow> exn option \<times> world" where
  "idle_cycle cfg e now w =
     (case discover_devices e w of
        (Inl x, w1) \<Rightarrow> (Some x, w1)
      | (Inr ips, w1) \<Rightarrow>
          then_do (seed_devices e now ips w1) (\<lambda>w2. evaluate cfg e now (last_activity w2) w2))"

text \<open>
  The running process: the sniffer thread delivers frames, the main thread runs cycles.
  The list of inputs is the fuel of the endless loop; an exception that leaves a cycle ends
  the main thread, and the daemon threads with it, so the remaining inputs are dropped.
\<close>

datatype input = Frame time packet | Cycle time env

fun idle_checker :: "config \<Rightarrow> input list \<Rightarrow> world \<Rightarrow> exn option \<times> world" where
  "idle_checker cfg [] w = (None, w)"
| "idle_checker cfg (Frame now pkt # ins) w = idle_checker cfg ins (packet_handler now pkt w)"
| "idle_checker cfg (Cycle now e # ins) w =
     (case idle_cycle cfg e now w of
        (Some x, w1) \<Rightarrow> (Some x, w1)
      | (None, w1) \<Rightarrow> idle_checker cfg ins w1)"

subsection \<open>Specification vocabulary\<close>

text \<open>
  The address whose idle handling a call belongs to: the calls of the second loop and of
  \<open>block_ip\<close>. The calls of discovery and seeding belong to none.
\<close>

fun action_for :: "call \<Rightarrow> ip option" where
  "action_for (Log (Msg_blocked a)) = Some a"
| "action_for (Log (Msg_block_failed a x)) = Some a"
| "action_for (Log (Msg_arp_failed x)) = None"
| "action_for (Log (Msg_discovered a)) = None"
| "action_for (Log (Msg_idle a t)) = Some a"
| "action_for (Notify a t) = Some a"
| "action_for (Playsound a) = Some a"
| "action_for (Print_sound_error a x) = Some a"
| "action_for (Netsh d a) = Some a"
| "action_for (Iptables d a) = Some a"
| "action_for Arp_a = None"
| "action_for Arp_n = None"
| "action_for (Enter_block_ip a) = Some a"

definition acts_on :: "ip \<Rightarrow> event \<Rightarrow> bool" where
  "acts_on a ev = (action_for (fst ev) = Some a)"

definition no_action :: "event \<Rightarrow> bool" where
  "no_action ev = (action_for (fst ev) = None)"

text \<open>The actions taken on an address so far, in order.\<close>

definition actions_on :: "ip \<Rightarrow> world \<Rightarrow> event list" where
  "actions_on a w = filter (acts_on a) (trace w)"

text \<open>How often \<open>block_ip(a)\<close> has been entered.\<close>

definition enforcements :: "ip \<Rightarrow> world \<Rightarrow> nat" where
  "enforcements a w = count_list (trace w) (Enter_block_ip a, None)"

text \<open>The trace of \<open>w'\<close> is the trace of \<open>w\<close> followed by events that satisfy \<open>P\<close>.\<close>

definition grows :: "(event \<Rightarrow> bool) \<Rightarrow> world \<Rightarrow> world \<Rightarrow> bool" where
  "grows P w w' = (\<exists>evs. trace w' = trace w @ evs \<and> list_all P evs)"

text \<open>The exception of the first command in a list that raises, if any does.\<close>

fun first_failure :: "env \<Rightarrow> call list \<Rightarrow> exn option" where
  "first_failure e [] = None"
| "first_failure e (c # cs) =
     (case raises e c of Some x \<Rightarrow> Some x | None \<Rightarrow> first_failure e cs)"

subsection \<open>Concrete scenarios\<close>

text \<open>
  One host on a Linux machine whose \<open>arp -n\<close> lists it; in \<open>quiet_env\<close> no call raises, in
  \<open>failing_env c\<close> exactly the call \<open>c\<close> does.
\<close>

definition host :: ip where
  "host = ''10.0.0.5''"

definition quiet_env :: env where
  "quiet_env = \<lparr>os = Linux, arp_stdout = ''10.0.0.5 ether aa:bb'', sound_file_exists = True,
                 raises = (\<lambda>c. None)\<rparr>"

definition failing_env :: "call \<Rightarrow> env" where
  "failing_env c =
     quiet_env\<lparr>raises := (\<lambda>c'. if c' = c then Some (Raised ''Error'') else None)\<rparr>"

definition seen_world :: "time \<Rightarrow> world" where
  "seen_world t = \<lparr>last_activity = [(host, t)], blocked_ips = {}, trace = []\<rparr>"

text \<open>An environment in which exactly the calls of a list raise.\<close>

definition failing_calls :: "call list \<Rightarrow> env" where
  "failing_calls cs =
     quiet_env\<lparr>raises := (\<lambda>c. if c \<in> set cs then Some (Raised ''Error'') else None)\<rparr>"

text \<open>Two hosts in the ARP table, and an ARP table that lists only the broadcast address.\<close>

definition other_host :: ip where
  "other_host = ''10.0.0.6''"

definition two_seen_world :: world where
  "two_seen_world =
     \<lparr>last_activity = [(host, 0), (other_host, 0)], blocked_ips = {}, trace = []\<rparr>"

definition two_hosts_env :: env where
  "two_hosts_env =
     quiet_env\<lparr>arp_stdout := ''10.0.0.5 ether aa:bb'' @ [CHR 0x0A] @ ''10.0.0.6 ether cc:dd''\<rparr>"

definition broadcast_env :: env where
  "broadcast_env =
     quiet_env\<lparr>arp_stdout := ''255.255.255.255 ether ff:ff'' @ [CHR 0x0A] @ ''255.255.255.255 ether ff:ff''\<rparr>"

section \<open>Auxiliary facts\<close>


subsection \<open>Dictionary\<close>

lemma map_of_dict_set: "map_of (dict_set k v d) = (map_of d)(k \<mapsto> v)"
  by (induction d) (auto simp: fun_eq_iff)

lemma keys_dict_set:
  "map fst (dict_set k v d) = (if k \<in> fst ` set d then map fst d else map fst d @ [k])"
  by (induction k v d rule: dict_set.induct) auto

lemma distinct_dict_set: "distinct (map fst d) \<Longrightarrow> distinct (map fst (dict_set k v d))"
  by (simp add: keys_dict_set)

subsection \<open>Growth of the trace\<close>

lemma grows_refl: "grows P w w"
  by (simp add: grows_def)

lemma grows_eq_trace: "trace w' = trace w \<Longrightarrow> grows P w w'"
  by (simp add: grows_def)

lemma grows_trans: "grows P w w1 \<Longrightarrow> grows P w1 w2 \<Longrightarrow> grows P w w2"
  by (auto simp: grows_def)

lemma grows_emit: "P (c, r) \<Longrightarrow> grows P w (emit c r w)"
  by (simp add: grows_def emit_def)

lemma grows_mono: "grows P w w' \<Longrightarrow> (\<And>ev. P ev \<Longrightarrow> Q ev) \<Longrightarrow> grows Q w w'"
  by (auto simp: grows_def list_all_iff)

lemma grows_actions_on:
  "grows P w w' \<Longrightarrow> (\<And>ev. P ev \<Longrightarrow> \<not> acts_on a ev) \<Longrightarrow> actions_on a w' = actions_on a w"
  by (auto simp: grows_def actions_on_def list_all_iff filter_empty_conv)

lemma grows_enforcements:
  "grows P w w' \<Longrightarrow> \<not> P (Enter_block_ip a, None) \<Longrightarrow> enforcements a w' = enforcements a w"
  by (auto simp: grows_def enforcements_def list_all_iff)

lemma acts_on_unique: "acts_on a ev \<Longrightarrow> acts_on b ev \<Longrightarrow> a = b"
  by (simp add: acts_on_def)

lemma no_action_not_acts_on: "no_action ev \<Longrightarrow> \<not> acts_on a ev"
  by (simp add: no_action_def acts_on_def)

subsection \<open>Frame facts of the effects\<close>

lemma emit_fields [simp]:
  "last_activity (emit c r w) = last_activity w"
  "blocked_ips (emit c r w) = blocked_ips w"
  "trace (emit c r w) = trace w @ [(c, r)]"
  by (simp_all add: emit_def)

lemma perform_frame:
  assumes "perform e c w = (r, w')"
  shows "last_activity w' = last_activity w" "blocked_ips w' = blocked_ips w"
    "trace w' = trace w @ [(c, r)]" "r = raises e c"
  using assms by (auto simp: perform_def)

lemma perform_grows: "perform e c w = (r, w') \<Longrightarrow> P (c, r) \<Longrightarrow> grows P w w'"
  by (auto simp: perform_def intro: grows_emit)

lemma play_sound_frame:
  assumes "play_sound e a w = (r, w')"
  shows "last_activity w' = last_activity w" "blocked_ips w' = blocked_ips w"
    "grows (\<lambda>ev. acts_on a ev \<and> fst ev \<noteq> Enter_block_ip b) w w'"
  using assms
  by (auto simp: play_sound_def perform_def grows_def acts_on_def
           split: option.splits if_splits)

lemma run_commands_frame:
  assumes "run_commands e cs w = (r, w')" "\<forall>c\<in>set cs. action_for c = Some a \<and> c \<noteq> Enter_block_ip b"
  shows "last_activity w' = last_activity w \<and> blocked_ips w' = blocked_ips w
     \<and> grows (\<lambda>ev. acts_on a ev \<and> fst ev \<noteq> Enter_block_ip b) w w'"
  using assms
proof (induction cs arbitrary: w)
  case Nil
  then show ?case by (simp add: grows_refl)
next
  case (Cons c cs)
  obtain r1 w1 where p: "perform e c w = (r1, w1)" by (cases "perform e c w")
  have g: "grows (\<lambda>ev. acts_on a ev \<and> fst ev \<noteq> Enter_block_ip b) w w1"
    using p Cons.prems(2) by (intro perform_grows) (auto simp: acts_on_def)
  show ?case
  proof (cases r1)
    case None
    with p Cons.prems have "run_commands e cs w1 = (r, w')" by simp
    from Cons.IH[OF this] Cons.prems(2) perform_frame[OF p] g show ?thesis
      by (auto intro: grows_trans)
  next
    case (Some x)
    with p Cons.prems have "w' = w1" by simp
    with perform_frame[OF p] g show ?thesis by simp
  qed
qed

lemma firewall_commands_about:
  "\<forall>c\<in>set (firewall_commands t a). action_for c = Some a \<and> c \<noteq> Enter_block_ip b"
  by (cases t) (simp_all add: firewall_commands_def)


lemma then_do_cases:
  assumes "then_do m f = (r, w')"
  obtains (raised) x where "m = (Some x, w')" "r = Some x"
        | (returned) w1 where "m = (None, w1)" "f w1 = (r, w')"
  using assms by (auto simp: then_do_def split: prod.splits option.splits)

lemma log_frame:
  assumes "log e m w = (r, w')"
  shows "last_activity w' = last_activity w" "blocked_ips w' = blocked_ips w"
    "trace w' = trace w @ [(Log m, r)]" "r = raises e (Log m)"
  using assms by (auto simp: log_def perform_def)

lemma notify_frame:
  assumes "notify e a t w = (r, w')"
  shows "last_activity w' = last_activity w" "blocked_ips w' = blocked_ips w"
    "trace w' = trace w @ [(Notify a t, r)]" "r = raises e (Notify a t)"
  using assms by (auto simp: notify_def perform_def)

lemma block_ip_frame:
  assumes "block_ip e a w = (r, w')"
  shows "last_activity w' = last_activity w" "blocked_ips w' = blocked_ips w"
    "grows (\<lambda>ev. acts_on a ev \<and> fst ev \<noteq> Enter_block_ip b) (emit (Enter_block_ip a) None w) w'"
proof -
  let ?Q = "\<lambda>ev. acts_on a ev \<and> fst ev \<noteq> Enter_block_ip b"
  let ?w0 = "emit (Enter_block_ip a) None w"
  obtain r1 w1 where rc: "run_commands e (firewall_commands (os e) a) ?w0 = (r1, w1)"
    by (cases "run_commands e (firewall_commands (os e) a) ?w0")
  note f1 = run_commands_frame[OF rc firewall_commands_about, of b]
  obtain r2 w2 where td: "then_do (r1, w1) (log e (Msg_blocked a)) = (r2, w2)"
    by (cases "then_do (r1, w1) (log e (Msg_blocked a))")
  have f2: "last_activity w2 = last_activity w1 \<and> blocked_ips w2 = blocked_ips w1 \<and> grows ?Q w1 w2"
    using td
  proof (cases rule: then_do_cases)
    case (raised x)
    then show ?thesis by (simp add: grows_refl)
  next
    case (returned w1')
    then show ?thesis using log_frame[of e "Msg_blocked a" w1 r2 w2]
      by (simp add: grows_def acts_on_def)
  qed
  have f3: "last_activity w' = last_activity w2 \<and> blocked_ips w' = blocked_ips w2 \<and> grows ?Q w2 w'"
  proof (cases r2)
    case None
    with assms rc td show ?thesis by (simp add: block_ip_def grows_refl)
  next
    case (Some x)
    with assms rc td have "log e (Msg_block_failed a x) w2 = (r, w')"
      by (simp add: block_ip_def)
    from log_frame[OF this] show ?thesis by (simp add: grows_def acts_on_def)
  qed
  from f1 f2 f3 show "last_activity w' = last_activity w" "blocked_ips w' = blocked_ips w"
    by simp_all
  from f1 f2 f3 show "grows ?Q ?w0 w'"
    by (blast intro: grows_trans)
qed

lemma block_ip_grows: "block_ip e a w = (r, w') \<Longrightarrow> grows (acts_on a) w w'"
proof -
  assume b: "block_ip e a w = (r, w')"
  have "grows (acts_on a) w (emit (Enter_block_ip a) None w)"
    by (rule grows_emit) (simp add: acts_on_def)
  moreover have "grows (acts_on a) (emit (Enter_block_ip a) None w) w'"
    using block_ip_frame(3)[OF b, of a] by (rule grows_mono) simp
  ultimately show ?thesis by (rule grows_trans)
qed

lemma block_ip_enforcements:
  assumes "block_ip e a w = (r, w')"
  shows "enforcements a w' = Suc (enforcements a w)"
proof -
  have "enforcements a w' = enforcements a (emit (Enter_block_ip a) None w)"
    using block_ip_frame(3)[OF assms, of a] by (rule grows_enforcements) simp
  then show ?thesis by (simp add: enforcements_def)
qed


subsection \<open>One item of the evaluation loop\<close>

lemma check_ip_skip:
  "a = broadcast \<or> a \<in> blocked_ips w \<or> now - s < IDLE_TIMEOUT cfg * 1000000
   \<Longrightarrow> check_ip cfg e now (a, s) w = (None, w)"
  by (auto simp: check_ip_def)

text \<open>Where the handling of an idle address can end.\<close>

lemma check_ip_stages:
  assumes "check_ip cfg e now (b, s) w = (r, w')"
    and "b \<noteq> broadcast" "IDLE_TIMEOUT cfg * 1000000 \<le> now - s" "b \<notin> blocked_ips w"
  obtains (log_raised) x where "r = Some x"
      "raises e (Log (Msg_idle b (IDLE_TIMEOUT cfg))) = Some x"
      "w' = emit (Log (Msg_idle b (IDLE_TIMEOUT cfg))) (Some x) w"
  | (notify_raised) x where "r = Some x"
      "raises e (Log (Msg_idle b (IDLE_TIMEOUT cfg))) = None"
      "raises e (Notify b (IDLE_TIMEOUT cfg)) = Some x"
      "w' = emit (Notify b (IDLE_TIMEOUT cfg)) (Some x)
              (emit (Log (Msg_idle b (IDLE_TIMEOUT cfg))) None w)"
  | (sound_raised) x where "r = Some x"
      "play_sound e b (emit (Notify b (IDLE_TIMEOUT cfg)) None
              (emit (Log (Msg_idle b (IDLE_TIMEOUT cfg))) None w)) = (Some x, w')"
  | (block_raised) x w3 where "r = Some x"
      "play_sound e b (emit (Notify b (IDLE_TIMEOUT cfg)) None
              (emit (Log (Msg_idle b (IDLE_TIMEOUT cfg))) None w)) = (None, w3)"
      "AGGRESSIVE_MODE cfg" "block_ip e b w3 = (Some x, w')"
  | (handled) w3 w4 where "r = None"
      "raises e (Log (Msg_idle b (IDLE_TIMEOUT cfg))) = None"
      "raises e (Notify b (IDLE_TIMEOUT cfg)) = None"
      "play_sound e b (emit (Notify b (IDLE_TIMEOUT cfg)) None
              (emit (Log (Msg_idle b (IDLE_TIMEOUT cfg))) None w)) = (None, w3)"
      "(if AGGRESSIVE_MODE cfg then block_ip e b w3 else (None, w3)) = (None, w4)"
      "w' = w4\<lparr>blocked_ips := insert b (blocked_ips w4)\<rparr>"
proof -
  let ?T = "IDLE_TIMEOUT cfg"
  let ?w2 = "emit (Notify b ?T) None (emit (Log (Msg_idle b ?T)) None w)"
  obtain r3 w3 where ps: "play_sound e b ?w2 = (r3, w3)" by (cases "play_sound e b ?w2")
  obtain r4 w4 where bl: "(if AGGRESSIVE_MODE cfg then block_ip e b w3 else (None, w3)) = (r4, w4)"
    by (cases "if AGGRESSIVE_MODE cfg then block_ip e b w3 else (None, w3)")
  show thesis
  proof (cases "raises e (Log (Msg_idle b ?T))")
    case (Some x)
    with assms have "r = Some x" "w' = emit (Log (Msg_idle b ?T)) (Some x) w"
      by (auto simp: check_ip_def then_do_def log_def perform_def)
    with Some show thesis by (intro log_raised[of x]) simp_all
  next
    case l: None
    show thesis
    proof (cases "raises e (Notify b ?T)")
      case (Some x)
      with assms l have "r = Some x"
        "w' = emit (Notify b ?T) (Some x) (emit (Log (Msg_idle b ?T)) None w)"
        by (auto simp: check_ip_def then_do_def log_def notify_def perform_def)
      with l Some show thesis by (intro notify_raised[of x]) simp_all
    next
      case n: None
      from assms l n ps
      have c3: "then_do (r3, w3) (\<lambda>w3. then_do
            (if AGGRESSIVE_MODE cfg then block_ip e b w3 else (None, w3))
            (\<lambda>w4. (None, w4\<lparr>blocked_ips := insert b (blocked_ips w4)\<rparr>))) = (r, w')"
        by (simp add: check_ip_def then_do_def log_def notify_def perform_def)
      show thesis
      proof (cases r3)
        case (Some x)
        with c3 have "r = Some x" "w' = w3" by (auto simp: then_do_def)
        with ps Some show thesis by (intro sound_raised[of x]) simp_all
      next
        case s3: None
        show thesis
        proof (cases r4)
          case (Some x)
          with c3 s3 bl have rw: "r = Some x" "w' = w4" by (auto simp: then_do_def)
          from bl Some have ag: "AGGRESSIVE_MODE cfg" by (auto split: if_splits)
          with bl Some rw have "block_ip e b w3 = (Some x, w')" by simp
          with rw(1) ps s3 ag show thesis by (intro block_raised[of x w3]) simp_all
        next
          case None
          with c3 s3 bl have "r = None" "w' = w4\<lparr>blocked_ips := insert b (blocked_ips w4)\<rparr>"
            by (auto simp: then_do_def)
          with l n ps s3 bl None show thesis by (intro handled[of w3 w4]) simp_all
        qed
      qed
    qed
  qed
qed

lemma check_ip_frame:
  assumes "check_ip cfg e now (b, s) w = (r, w')"
  shows "last_activity w' = last_activity w \<and> blocked_ips w \<subseteq> blocked_ips w'
     \<and> blocked_ips w' \<subseteq> insert b (blocked_ips w) \<and> grows (acts_on b) w w'"
proof (cases "b \<noteq> broadcast \<and> IDLE_TIMEOUT cfg * 1000000 \<le> now - s \<and> b \<notin> blocked_ips w")
  case False
  then have "check_ip cfg e now (b, s) w = (None, w)"
    by (intro check_ip_skip) auto
  with assms show ?thesis by (auto simp: grows_refl)
next
  case True
  let ?T = "IDLE_TIMEOUT cfg"
  let ?w1 = "emit (Log (Msg_idle b ?T)) None w"
  let ?w2 = "emit (Notify b ?T) None ?w1"
  have g1: "grows (acts_on b) w (emit (Log (Msg_idle b ?T)) x w)" for x
    by (rule grows_emit) (simp add: acts_on_def)
  have g2: "grows (acts_on b) ?w1 (emit (Notify b ?T) x ?w1)" for x
    by (rule grows_emit) (simp add: acts_on_def)
  have g12: "grows (acts_on b) w ?w2" using g1 g2 by (rule grows_trans)
  have sound: "last_activity w3 = last_activity w \<and> blocked_ips w3 = blocked_ips w
      \<and> grows (acts_on b) w w3" if "play_sound e b ?w2 = (r3, w3)" for r3 w3
  proof -
    have "grows (acts_on b) ?w2 w3"
      using play_sound_frame(3)[OF that, of b] by (rule grows_mono) simp
    with g12 have "grows (acts_on b) w w3" by (rule grows_trans)
    with play_sound_frame(1,2)[OF that] show ?thesis by simp
  qed
  from True have x: "b \<noteq> broadcast" "IDLE_TIMEOUT cfg * 1000000 \<le> now - s" "b \<notin> blocked_ips w"
    by simp_all
  from assms x show ?thesis
  proof (cases rule: check_ip_stages)
    case (log_raised x)
    with g1 show ?thesis by auto
  next
    case (notify_raised x)
    with g1 g2 show ?thesis by (auto intro: grows_trans)
  next
    case (sound_raised x)
    from sound[OF sound_raised(2)] show ?thesis by auto
  next
    case (block_raised x w3)
    note f3 = sound[OF block_raised(2)]
    note f4 = block_ip_frame(1,2)[OF block_raised(4)] block_ip_grows[OF block_raised(4)]
    from f3 f4 show ?thesis by (auto intro: grows_trans)
  next
    case (handled w3 w4)
    note f3 = sound[OF handled(4)]
    have f4: "last_activity w4 = last_activity w3 \<and> blocked_ips w4 = blocked_ips w3
        \<and> grows (acts_on b) w3 w4"
      using handled(5) block_ip_frame(1,2) block_ip_grows
      by (auto simp: grows_refl split: if_splits)
    have "grows (acts_on b) w4 w'" using handled(6) by (intro grows_eq_trace) simp
    with f3 f4 have "grows (acts_on b) w w'" by (blast intro: grows_trans)
    with f3 f4 handled(6) show ?thesis by auto
  qed
qed

lemma check_ip_fires:
  assumes c: "check_ip cfg e now (b, s) w = (None, w')"
    and x: "b \<noteq> broadcast" "IDLE_TIMEOUT cfg * 1000000 \<le> now - s" "b \<notin> blocked_ips w"
  shows "blocked_ips w' = insert b (blocked_ips w)"
    and "enforcements b w' = (if AGGRESSIVE_MODE cfg then Suc (enforcements b w) else enforcements b w)"
    and "\<exists>evs. actions_on b w' = actions_on b w
            @ (Log (Msg_idle b (IDLE_TIMEOUT cfg)), None) # (Notify b (IDLE_TIMEOUT cfg), None) # evs"
proof -
  let ?T = "IDLE_TIMEOUT cfg"
  let ?w1 = "emit (Log (Msg_idle b ?T)) None w"
  let ?w2 = "emit (Notify b ?T) None ?w1"
  from c x obtain w3 w4 where ps: "play_sound e b ?w2 = (None, w3)"
    and b4: "(if AGGRESSIVE_MODE cfg then block_ip e b w3 else (None, w3)) = (None, w4)"
    and w': "w' = w4\<lparr>blocked_ips := insert b (blocked_ips w4)\<rparr>"
    by (cases rule: check_ip_stages) simp_all
  note ps3 = play_sound_frame(1,2)[OF ps] play_sound_frame(3)[OF ps, of b]
  have e3: "enforcements b w3 = enforcements b w"
  proof -
    have "enforcements b w3 = enforcements b ?w2"
      using ps3(3) by (rule grows_enforcements) simp
    then show ?thesis by (simp add: enforcements_def)
  qed
  have f4: "blocked_ips w4 = blocked_ips w3 \<and> grows (acts_on b) w3 w4
      \<and> enforcements b w4 = (if AGGRESSIVE_MODE cfg then Suc (enforcements b w3) else enforcements b w3)"
  proof (cases "AGGRESSIVE_MODE cfg")
    case True
    with b4 have "block_ip e b w3 = (None, w4)" by simp
    from block_ip_frame(2)[OF this] block_ip_grows[OF this] block_ip_enforcements[OF this] True
    show ?thesis by simp
  next
    case False
    with b4 show ?thesis by (simp add: grows_refl)
  qed
  from f4 ps3(2) w' show "blocked_ips w' = insert b (blocked_ips w)" by simp
  from f4 e3 w' show "enforcements b w' = (if AGGRESSIVE_MODE cfg then Suc (enforcements b w) else enforcements b w)"
    by (simp add: enforcements_def)
  have "grows (acts_on b) ?w2 w4"
  proof (rule grows_trans)
    show "grows (acts_on b) ?w2 w3" using ps3(3) by (rule grows_mono) simp
    show "grows (acts_on b) w3 w4" using f4 by simp
  qed
  then obtain evs where evs: "trace w4 = trace ?w2 @ evs" "list_all (acts_on b) evs"
    by (auto simp: grows_def)
  have "filter (acts_on b) evs = evs"
    using evs(2) by (simp add: list_all_iff)
  with evs(1) w' have "actions_on b w' = actions_on b w
            @ (Log (Msg_idle b ?T), None) # (Notify b ?T, None) # evs"
    by (simp add: actions_on_def acts_on_def)
  then show "\<exists>evs. actions_on b w' = actions_on b w
            @ (Log (Msg_idle b ?T), None) # (Notify b ?T, None) # evs" ..
qed

lemma check_ip_other:
  assumes "check_ip cfg e now (b, s) w = (r, w')" "a \<noteq> b"
  shows "actions_on a w' = actions_on a w" "enforcements a w' = enforcements a w"
    "a \<in> blocked_ips w' \<longleftrightarrow> a \<in> blocked_ips w"
proof -
  note f = check_ip_frame[OF assms(1)]
  from f have g: "grows (acts_on b) w w'" by simp
  from g show "actions_on a w' = actions_on a w"
    by (rule grows_actions_on) (use assms(2) acts_on_unique in blast)
  from g show "enforcements a w' = enforcements a w"
    by (rule grows_enforcements) (use assms(2) in \<open>simp add: acts_on_def\<close>)
  from f assms(2) show "a \<in> blocked_ips w' \<longleftrightarrow> a \<in> blocked_ips w" by auto
qed

subsection \<open>The evaluation loop\<close>

lemma evaluate_frame:
  "evaluate cfg e now items w = (r, w')
   \<Longrightarrow> last_activity w' = last_activity w \<and> blocked_ips w \<subseteq> blocked_ips w'"
proof (induction items arbitrary: w)
  case Nil
  then show ?case by simp
next
  case (Cons item items)
  obtain b s where item: "item = (b, s)" by (cases item)
  obtain r1 w1 where c: "check_ip cfg e now (b, s) w = (r1, w1)"
    by (cases "check_ip cfg e now (b, s) w")
  note f = check_ip_frame[OF c]
  show ?case
  proof (cases r1)
    case None
    with Cons.prems item c have "evaluate cfg e now items w1 = (r, w')" by simp
    from Cons.IH[OF this] f show ?thesis by auto
  next
    case (Some x)
    with Cons.prems item c have "w' = w1" by simp
    with f show ?thesis by simp
  qed
qed

lemma evaluate_untouched:
  assumes "evaluate cfg e now items w = (r, w')"
    and "\<forall>s. (a, s) \<in> set items \<longrightarrow>
           a = broadcast \<or> a \<in> blocked_ips w \<or> now - s < IDLE_TIMEOUT cfg * 1000000"
  shows "actions_on a w' = actions_on a w \<and> enforcements a w' = enforcements a w
     \<and> (a \<in> blocked_ips w' \<longleftrightarrow> a \<in> blocked_ips w)"
  using assms
proof (induction items arbitrary: w)
  case Nil
  then show ?case by simp
next
  case (Cons item items)
  obtain b s where item: "item = (b, s)" by (cases item)
  obtain r1 w1 where c: "check_ip cfg e now (b, s) w = (r1, w1)"
    by (cases "check_ip cfg e now (b, s) w")
  have step: "actions_on a w1 = actions_on a w \<and> enforcements a w1 = enforcements a w
     \<and> (a \<in> blocked_ips w1 \<longleftrightarrow> a \<in> blocked_ips w)"
  proof (cases "a = b")
    case True
    with Cons.prems(2) item
    have "b = broadcast \<or> b \<in> blocked_ips w \<or> now - s < IDLE_TIMEOUT cfg * 1000000" by simp
    from check_ip_skip[OF this, of e] c show ?thesis by simp
  next
    case False
    from check_ip_other[OF c False] show ?thesis by simp
  qed
  show ?case
  proof (cases r1)
    case None
    with Cons.prems item c have ev: "evaluate cfg e now items w1 = (r, w')" by simp
    have "\<forall>s. (a, s) \<in> set items \<longrightarrow>
           a = broadcast \<or> a \<in> blocked_ips w1 \<or> now - s < IDLE_TIMEOUT cfg * 1000000"
      using Cons.prems(2) step by auto
    from Cons.IH[OF ev this] step show ?thesis by simp
  next
    case (Some x)
    with Cons.prems item c have "w' = w1" by simp
    with step show ?thesis by simp
  qed
qed

lemma evaluate_fires:
  assumes "evaluate cfg e now items w = (None, w')"
    and "distinct (map fst items)" "(a, s) \<in> set items"
    and "a \<noteq> broadcast" "IDLE_TIMEOUT cfg * 1000000 \<le> now - s" "a \<notin> blocked_ips w"
  shows "a \<in> blocked_ips w'
     \<and> enforcements a w' = (if AGGRESSIVE_MODE cfg then Suc (enforcements a w) else enforcements a w)
     \<and> (\<exists>evs. actions_on a w' = actions_on a w
            @ (Log (Msg_idle a (IDLE_TIMEOUT cfg)), None) # (Notify a (IDLE_TIMEOUT cfg), None) # evs)"
  using assms
proof (induction items arbitrary: w)
  case Nil
  then show ?case by simp
next
  case (Cons item items)
  obtain b t where item: "item = (b, t)" by (cases item)
  obtain r1 w1 where c: "check_ip cfg e now (b, t) w = (r1, w1)"
    by (cases "check_ip cfg e now (b, t) w")
  from Cons.prems(1) item c have r1: "r1 = None" and ev: "evaluate cfg e now items w1 = (None, w')"
    by (auto split: option.splits)
  show ?case
  proof (cases "(a, s) = (b, t)")
    case True
    then have ab: "b = a" "t = s" by simp_all
    from c r1 ab have c': "check_ip cfg e now (a, s) w = (None, w1)" by simp
    note f = check_ip_fires[OF c' Cons.prems(4,5,6)]
    have "\<forall>s. (a, s) \<in> set items \<longrightarrow>
           a = broadcast \<or> a \<in> blocked_ips w1 \<or> now - s < IDLE_TIMEOUT cfg * 1000000"
      using f(1) by simp
    from evaluate_untouched[OF ev this] f show ?thesis by simp
  next
    case False
    with Cons.prems(2,3) item have ne: "a \<noteq> b" and mem: "(a, s) \<in> set items"
      by (auto simp: image_iff)
    note o = check_ip_other[OF c ne]
    from Cons.prems(2) have d: "distinct (map fst items)" by simp
    from o(3) Cons.prems(6) have nb: "a \<notin> blocked_ips w1" by simp
    from Cons.IH[OF ev d mem Cons.prems(4,5) nb] o show ?thesis by simp
  qed
qed


subsection \<open>Packets, discovery and seeding\<close>

lemma packet_handler_frame:
  "blocked_ips (packet_handler now pkt w) = blocked_ips w"
  "trace (packet_handler now pkt w) = trace w"
  by (simp_all add: packet_handler_def split: option.splits prod.splits)

lemma packet_handler_distinct:
  "distinct (map fst (last_activity w))
   \<Longrightarrow> distinct (map fst (last_activity (packet_handler now pkt w)))"
  by (simp add: packet_handler_def distinct_dict_set split: option.splits prod.splits)

lemma arp_query_frame:
  assumes "arp_query e w = (res, w')"
  shows "last_activity w' = last_activity w" "blocked_ips w' = blocked_ips w"
    "grows no_action w w'"
  using assms
  by (auto simp: arp_query_def perform_def grows_def no_action_def
           split: if_splits option.splits prod.splits)

lemma discover_devices_frame:
  assumes "discover_devices e w = (res, w')"
  shows "last_activity w' = last_activity w" "blocked_ips w' = blocked_ips w"
    "grows no_action w w'"
proof -
  obtain r ips w1 where q: "arp_query e w = ((r, ips), w1)"
    by (cases "arp_query e w") auto
  note f = arp_query_frame[OF q]
  have "last_activity w' = last_activity w1 \<and> blocked_ips w' = blocked_ips w1 \<and> grows no_action w1 w'"
  proof (cases r)
    case None
    with assms q show ?thesis by (simp add: discover_devices_def grows_refl)
  next
    case (Some x)
    obtain r2 w2 where l: "log e (Msg_arp_failed x) w1 = (r2, w2)"
      by (cases "log e (Msg_arp_failed x) w1")
    with assms q Some have "w' = w2" by (auto simp: discover_devices_def split: option.splits)
    with log_frame[OF l] show ?thesis by (simp add: grows_def no_action_def)
  qed
  with f show "last_activity w' = last_activity w" "blocked_ips w' = blocked_ips w"
    "grows no_action w w'"
    by (auto intro: grows_trans)
qed

lemma seed_devices_frame:
  "seed_devices e now ips w = (r, w')
   \<Longrightarrow> blocked_ips w' = blocked_ips w \<and> grows no_action w w'
     \<and> (distinct (map fst (last_activity w)) \<longrightarrow> distinct (map fst (last_activity w')))"
proof (induction ips arbitrary: w)
  case Nil
  then show ?case by (simp add: grows_refl)
next
  case (Cons a ips)
  show ?case
  proof (cases "a \<noteq> broadcast \<and> \<not> dict_mem a (last_activity w)")
    case False
    with Cons.prems have "seed_devices e now ips w = (r, w')" by (auto split: if_splits)
    from Cons.IH[OF this] show ?thesis .
  next
    case True
    let ?w0 = "w\<lparr>last_activity := dict_set a now (last_activity w)\<rparr>"
    obtain r1 w1 where l: "log e (Msg_discovered a) ?w0 = (r1, w1)"
      by (cases "log e (Msg_discovered a) ?w0")
    from log_frame[OF l]
    have f: "blocked_ips w1 = blocked_ips w \<and> grows no_action w w1
       \<and> (distinct (map fst (last_activity w)) \<longrightarrow> distinct (map fst (last_activity w1)))"
      by (simp add: grows_def no_action_def distinct_dict_set)
    show ?thesis
    proof (cases r1)
      case None
      with Cons.prems True l have "seed_devices e now ips w1 = (r, w')" by simp
      from Cons.IH[OF this] f show ?thesis by (auto intro: grows_trans)
    next
      case (Some x)
      with Cons.prems True l have "w' = w1" by simp
      with f show ?thesis by simp
    qed
  qed
qed

text \<open>What seeding does to the dictionary, whatever its outcome.\<close>

lemma seed_devices_registry:
  "seed_devices e now ips w = (r, w')
   \<Longrightarrow> (\<forall>s. map_of (last_activity w) a = Some s \<longrightarrow> map_of (last_activity w') a = Some s)
     \<and> (map_of (last_activity w) a = None \<longrightarrow>
          map_of (last_activity w') a = None
          \<or> map_of (last_activity w') a = Some now \<and> a \<in> set ips \<and> a \<noteq> broadcast)
     \<and> (r = None \<and> a \<in> set ips \<and> a \<noteq> broadcast \<longrightarrow> map_of (last_activity w') a \<noteq> None)"
proof (induction ips arbitrary: w)
  case Nil
  then show ?case by simp
next
  case (Cons b ips)
  show ?case
  proof (cases "b \<noteq> broadcast \<and> \<not> dict_mem b (last_activity w)")
    case False
    with Cons.prems have sd: "seed_devices e now ips w = (r, w')" by (auto split: if_splits)
    from False have "a = b \<Longrightarrow> a = broadcast \<or> map_of (last_activity w) a \<noteq> None"
      by (auto simp: dict_mem_def)
    with Cons.IH[OF sd] show ?thesis
      by fastforce
  next
    case True
    let ?w0 = "w\<lparr>last_activity := dict_set b now (last_activity w)\<rparr>"
    obtain r1 w1 where l: "log e (Msg_discovered b) ?w0 = (r1, w1)"
      by (cases "log e (Msg_discovered b) ?w0")
    from log_frame(1)[OF l] have m1: "map_of (last_activity w1) = (map_of (last_activity w))(b \<mapsto> now)"
      by (simp add: map_of_dict_set)
    from True have bn: "map_of (last_activity w) b = None" "b \<noteq> broadcast"
      by (simp_all add: dict_mem_def)
    show ?thesis
    proof (cases r1)
      case None
      with Cons.prems True l have sd: "seed_devices e now ips w1 = (r, w')" by simp
      show ?thesis
      proof (cases "a = b")
        case True
        with Cons.IH[OF sd] m1 bn show ?thesis by simp
      next
        case False
        with Cons.IH[OF sd] m1 show ?thesis by simp
      qed
    next
      case (Some x)
      with Cons.prems True l have "w' = w1" "r = Some x" by simp_all
      with m1 bn show ?thesis by simp
    qed
  qed
qed


subsection \<open>One cycle\<close>

lemma idle_cycle_cases:
  assumes "idle_cycle cfg e now w = (r, w')"
  obtains (discovery) x where "discover_devices e w = (Inl x, w')" "r = Some x"
  | (seeding) ips w1 x where "discover_devices e w = (Inr ips, w1)"
      "seed_devices e now ips w1 = (Some x, w')" "r = Some x"
  | (evaluation) ips w1 w2 where "discover_devices e w = (Inr ips, w1)"
      "seed_devices e now ips w1 = (None, w2)" "evaluate cfg e now (last_activity w2) w2 = (r, w')"
  using assms
  by (auto simp: idle_cycle_def then_do_def split: prod.splits sum.splits option.splits)

lemma quiet_step:
  assumes "grows no_action w w'"
  shows "actions_on a w' = actions_on a w" "enforcements a w' = enforcements a w"
proof -
  from assms show "actions_on a w' = actions_on a w"
    by (rule grows_actions_on) (rule no_action_not_acts_on)
  from assms show "enforcements a w' = enforcements a w"
    by (rule grows_enforcements) (simp add: no_action_def)
qed

lemma idle_cycle_frame_all:
  assumes "idle_cycle cfg e now w = (r, w')"
  shows "blocked_ips w \<subseteq> blocked_ips w'
    \<and> (distinct (map fst (last_activity w)) \<longrightarrow> distinct (map fst (last_activity w')))
    \<and> (\<forall>s. map_of (last_activity w) a = Some s \<longrightarrow> map_of (last_activity w') a = Some s)
    \<and> (map_of (last_activity w) a = None \<longrightarrow>
           map_of (last_activity w') a = None
           \<or> map_of (last_activity w') a = Some now \<and> a \<noteq> broadcast)"
  using assms
proof (cases rule: idle_cycle_cases)
  case (discovery x)
  from discover_devices_frame(1,2)[OF discovery(1)] show ?thesis by simp
next
  case (seeding ips w1 x)
  from discover_devices_frame(1,2)[OF seeding(1)] seed_devices_frame[OF seeding(2)]
    seed_devices_registry[OF seeding(2), of a]
  show ?thesis by auto
next
  case (evaluation ips w1 w2)
  from discover_devices_frame(1,2)[OF evaluation(1)] seed_devices_frame[OF evaluation(2)]
    seed_devices_registry[OF evaluation(2), of a] evaluate_frame[OF evaluation(3)]
  show ?thesis by auto
qed

lemma idle_cycle_frame:
  assumes "idle_cycle cfg e now w = (r, w')"
  shows "blocked_ips w \<subseteq> blocked_ips w'"
    and "distinct (map fst (last_activity w)) \<Longrightarrow> distinct (map fst (last_activity w'))"
    and "map_of (last_activity w) a = Some s \<Longrightarrow> map_of (last_activity w') a = Some s"
    and "map_of (last_activity w) a = None \<Longrightarrow>
           map_of (last_activity w') a = None
           \<or> map_of (last_activity w') a = Some now \<and> a \<noteq> broadcast"
  using idle_cycle_frame_all[OF assms, where a = a] by simp_all

lemma idle_cycle_untouched:
  assumes c: "idle_cycle cfg e now w = (r, w')"
    and d: "distinct (map fst (last_activity w))"
    and old: "\<And>s. map_of (last_activity w) a = Some s \<Longrightarrow>
           a = broadcast \<or> a \<in> blocked_ips w \<or> now - s < IDLE_TIMEOUT cfg * 1000000"
    and new: "map_of (last_activity w) a = None \<Longrightarrow>
           a = broadcast \<or> a \<in> blocked_ips w \<or> 0 < IDLE_TIMEOUT cfg"
  shows "actions_on a w' = actions_on a w \<and> enforcements a w' = enforcements a w
     \<and> (a \<in> blocked_ips w' \<longleftrightarrow> a \<in> blocked_ips w)"
  using c
proof (cases rule: idle_cycle_cases)
  case (discovery x)
  from discover_devices_frame(2,3)[OF discovery(1)] quiet_step show ?thesis by simp
next
  case (seeding ips w1 x)
  note f1 = discover_devices_frame(2,3)[OF seeding(1)]
  note f2 = seed_devices_frame[OF seeding(2)]
  from f1 f2 have "grows no_action w w'" by (blast intro: grows_trans)
  from quiet_step[OF this] f1 f2 show ?thesis by simp
next
  case (evaluation ips w1 w2)
  note f1 = discover_devices_frame[OF evaluation(1)]
  note f2 = seed_devices_frame[OF evaluation(2)]
  note reg = seed_devices_registry[OF evaluation(2), of a]
  from f1 f2 have g: "grows no_action w w2" by (blast intro: grows_trans)
  from f1 f2 have b: "blocked_ips w2 = blocked_ips w" by simp
  have "a = broadcast \<or> a \<in> blocked_ips w2 \<or> now - s < IDLE_TIMEOUT cfg * 1000000"
    if "(a, s) \<in> set (last_activity w2)" for s
  proof -
    from f1(1) f2 d have "distinct (map fst (last_activity w2))" by simp
    with that have m2: "map_of (last_activity w2) a = Some s" by simp
    show ?thesis
    proof (cases "map_of (last_activity w) a")
      case None
      with reg f1(1) m2 have "s = now" by auto
      with new[OF None] b show ?thesis by auto
    next
      case (Some t)
      with reg f1(1) m2 have "s = t" by auto
      with old[OF Some] b show ?thesis by auto
    qed
  qed
  then have "\<forall>s. (a, s) \<in> set (last_activity w2) \<longrightarrow>
       a = broadcast \<or> a \<in> blocked_ips w2 \<or> now - s < IDLE_TIMEOUT cfg * 1000000"
    by blast
  from evaluate_untouched[OF evaluation(3) this] quiet_step[OF g] b show ?thesis by simp
qed

lemma idle_cycle_fires:
  assumes c: "idle_cycle cfg e now w = (None, w')"
    and d: "distinct (map fst (last_activity w))"
    and m: "map_of (last_activity w) a = Some s"
    and x: "a \<noteq> broadcast" "IDLE_TIMEOUT cfg * 1000000 \<le> now - s" "a \<notin> blocked_ips w"
  shows "a \<in> blocked_ips w'
     \<and> enforcements a w' = (if AGGRESSIVE_MODE cfg then Suc (enforcements a w) else enforcements a w)
     \<and> (\<exists>evs. actions_on a w' = actions_on a w
            @ (Log (Msg_idle a (IDLE_TIMEOUT cfg)), None) # (Notify a (IDLE_TIMEOUT cfg), None) # evs)"
  using c
proof (cases rule: idle_cycle_cases)
  case (evaluation ips w1 w2)
  note f1 = discover_devices_frame[OF evaluation(1)]
  note f2 = seed_devices_frame[OF evaluation(2)]
  note reg = seed_devices_registry[OF evaluation(2), of a]
  from f1 f2 have g: "grows no_action w w2" by (blast intro: grows_trans)
  from f1 f2 x(3) have b: "a \<notin> blocked_ips w2" by simp
  from f1(1) f2 d have d2: "distinct (map fst (last_activity w2))" by simp
  from reg f1(1) m have "map_of (last_activity w2) a = Some s" by simp
  then have mem: "(a, s) \<in> set (last_activity w2)" by (rule map_of_SomeD)
  from evaluate_fires[OF evaluation(3) d2 mem x(1,2) b] quiet_step[OF g, of a]
  show ?thesis by simp
qed simp_all

subsection \<open>The running process\<close>

lemma idle_checker_frame:
  "idle_checker cfg ins w = (r, w')
   \<Longrightarrow> blocked_ips w \<subseteq> blocked_ips w'
     \<and> (distinct (map fst (last_activity w)) \<longrightarrow> distinct (map fst (last_activity w')))"
proof (induction cfg ins w rule: idle_checker.induct)
  case (1 cfg w)
  then show ?case by simp
next
  case (2 cfg now pkt ins w)
  then show ?case by (simp add: packet_handler_frame packet_handler_distinct)
next
  case (3 cfg now e ins w)
  obtain r1 w1 where c: "idle_cycle cfg e now w = (r1, w1)" by (cases "idle_cycle cfg e now w")
  note f = idle_cycle_frame(1,2)[OF c]
  show ?case
  proof (cases r1)
    case None
    with "3.prems" c have "idle_checker cfg ins w1 = (r, w')" by simp
    from "3.IH"[OF c[symmetric] None this] f show ?thesis by auto
  next
    case (Some x)
    with "3.prems" c have "w' = w1" by simp
    with f show ?thesis by auto
  qed
qed

lemma idle_checker_gate:
  "idle_checker cfg ins w = (r, w') \<Longrightarrow> distinct (map fst (last_activity w))
   \<Longrightarrow> a = broadcast \<or> a \<in> blocked_ips w
   \<Longrightarrow> actions_on a w' = actions_on a w \<and> enforcements a w' = enforcements a w
     \<and> (a \<in> blocked_ips w' \<longleftrightarrow> a \<in> blocked_ips w)"
proof (induction cfg ins w rule: idle_checker.induct)
  case (1 cfg w)
  then show ?case by simp
next
  case (2 cfg now pkt ins w)
  from "2.prems" have "idle_checker cfg ins (packet_handler now pkt w) = (r, w')" by simp
  from "2.IH"[OF this] "2.prems"(2,3) show ?case
    by (simp add: packet_handler_frame packet_handler_distinct actions_on_def enforcements_def)
next
  case (3 cfg now e ins w)
  obtain r1 w1 where c: "idle_cycle cfg e now w = (r1, w1)" by (cases "idle_cycle cfg e now w")
  from "3.prems"(3) have u: "actions_on a w1 = actions_on a w \<and> enforcements a w1 = enforcements a w
     \<and> (a \<in> blocked_ips w1 \<longleftrightarrow> a \<in> blocked_ips w)"
    by (intro idle_cycle_untouched[OF c "3.prems"(2)]) auto
  note d = idle_cycle_frame(2)[OF c "3.prems"(2)]
  show ?case
  proof (cases r1)
    case None
    with "3.prems" c have "idle_checker cfg ins w1 = (r, w')" by simp
    from "3.IH"[OF c[symmetric] None this d] u "3.prems"(3) show ?thesis by auto
  next
    case (Some x)
    with "3.prems" c have "w' = w1" by simp
    with u show ?thesis by simp
  qed
qed

lemma run_commands_first_failure:
  "run_commands e cs w = (r, w') \<Longrightarrow> r = first_failure e cs"
  by (induction cs arbitrary: w) (auto simp: perform_def split: option.splits)

lemma block_ip_command_fails:
  assumes ff: "first_failure e (firewall_commands (os e) a) = Some x"
    and lg: "raises e (Log (Msg_block_failed a x)) = None"
  shows "\<exists>w' evs. block_ip e a w = (None, w') \<and> last_activity w' = last_activity w
     \<and> blocked_ips w' = blocked_ips w
     \<and> trace w' = trace w @ evs @ [(Log (Msg_block_failed a x), None)]"
proof -
  let ?w0 = "emit (Enter_block_ip a) None w"
  obtain r1 w1 where rc: "run_commands e (firewall_commands (os e) a) ?w0 = (r1, w1)"
    by (cases "run_commands e (firewall_commands (os e) a) ?w0")
  from run_commands_first_failure[OF rc] ff have r1: "r1 = Some x" by simp
  from run_commands_frame[OF rc firewall_commands_about, of a]
  obtain evs where evs: "trace w1 = trace ?w0 @ evs" "last_activity w1 = last_activity w"
    "blocked_ips w1 = blocked_ips w"
    by (auto simp: grows_def)
  have "block_ip e a w = (None, emit (Log (Msg_block_failed a x)) None w1)"
    using rc r1 lg by (simp add: block_ip_def then_do_def log_def perform_def)
  moreover have "trace (emit (Log (Msg_block_failed a x)) None w1)
      = trace w @ ((Enter_block_ip a, None) # evs) @ [(Log (Msg_block_failed a x), None)]"
    using evs(1) by simp
  ultimately show ?thesis using evs(2,3)
    by (intro exI[of _ "emit (Log (Msg_block_failed a x)) None w1"]
              exI[of _ "(Enter_block_ip a, None) # evs"]) simp
qed


subsection \<open>At most one enforcement action per address, also in runs that end in an exception\<close>

lemma check_ip_bound:
  assumes "check_ip cfg e now (b, s) w = (r, w')"
  shows "enforcements b w' \<le> Suc (enforcements b w)"
proof (cases "b \<noteq> broadcast \<and> IDLE_TIMEOUT cfg * 1000000 \<le> now - s \<and> b \<notin> blocked_ips w")
  case False
  then have "check_ip cfg e now (b, s) w = (None, w)"
    by (intro check_ip_skip) auto
  with assms show ?thesis by simp
next
  case True
  let ?T = "IDLE_TIMEOUT cfg"
  let ?w2 = "emit (Notify b ?T) None (emit (Log (Msg_idle b ?T)) None w)"
  have sound: "enforcements b w3 = enforcements b w" if "play_sound e b ?w2 = (r3, w3)" for r3 w3
  proof -
    have "enforcements b w3 = enforcements b ?w2"
      using play_sound_frame(3)[OF that, of b] by (rule grows_enforcements) simp
    then show ?thesis by (simp add: enforcements_def)
  qed
  from True have x: "b \<noteq> broadcast" "IDLE_TIMEOUT cfg * 1000000 \<le> now - s" "b \<notin> blocked_ips w"
    by simp_all
  from assms x show ?thesis
  proof (cases rule: check_ip_stages)
    case (log_raised x)
    then show ?thesis by (simp add: enforcements_def)
  next
    case (notify_raised x)
    then show ?thesis by (simp add: enforcements_def)
  next
    case (sound_raised x)
    from sound[OF sound_raised(2)] show ?thesis by simp
  next
    case (block_raised x w3)
    from sound[OF block_raised(2)] block_ip_enforcements[OF block_raised(4)]
    show ?thesis by simp
  next
    case (handled w3 w4)
    have "enforcements b w4 \<le> Suc (enforcements b w3)"
      using handled(5) block_ip_enforcements by (auto split: if_splits)
    with sound[OF handled(4)] handled(6) show ?thesis by (simp add: enforcements_def)
  qed
qed

text \<open>Every entry into \<open>block_ip\<close> is followed by the address joining the blocked set.\<close>

lemma check_ip_once:
  assumes c: "check_ip cfg e now (b, s) w = (r, w')"
    and k: "\<And>a. enforcements a w \<le> 1 \<and> (a \<notin> blocked_ips w \<longrightarrow> enforcements a w = 0)"
  shows "enforcements a w' \<le> 1 \<and> (r = None \<and> a \<notin> blocked_ips w' \<longrightarrow> enforcements a w' = 0)"
proof (cases "a = b")
  case False
  from check_ip_other[OF c False] k[of a] show ?thesis by simp
next
  case True
  show ?thesis
  proof (cases "b \<noteq> broadcast \<and> IDLE_TIMEOUT cfg * 1000000 \<le> now - s \<and> b \<notin> blocked_ips w")
    case False
    then have "check_ip cfg e now (b, s) w = (None, w)"
      by (intro check_ip_skip) auto
    with c k[of a] show ?thesis by simp
  next
    case x: True
    with k[of b] have z: "enforcements b w = 0" by simp
    from check_ip_bound[OF c] z have le: "enforcements b w' \<le> 1" by simp
    have "b \<in> blocked_ips w'" if "r = None"
      using check_ip_fires(1)[of cfg e now b s w w'] c x that by simp
    with le True show ?thesis by auto
  qed
qed

lemma evaluate_once:
  "evaluate cfg e now items w = (r, w')
   \<Longrightarrow> (\<And>a. enforcements a w \<le> 1 \<and> (a \<notin> blocked_ips w \<longrightarrow> enforcements a w = 0))
   \<Longrightarrow> enforcements a w' \<le> 1 \<and> (r = None \<and> a \<notin> blocked_ips w' \<longrightarrow> enforcements a w' = 0)"
proof (induction items arbitrary: w)
  case Nil
  then show ?case by auto
next
  case (Cons item items)
  obtain b s where item: "item = (b, s)" by (cases item)
  obtain r1 w1 where c: "check_ip cfg e now (b, s) w = (r1, w1)"
    by (cases "check_ip cfg e now (b, s) w")
  note o = check_ip_once[OF c Cons.prems(2)]
  show ?case
  proof (cases r1)
    case None
    with Cons.prems(1) item c have ev: "evaluate cfg e now items w1 = (r, w')" by simp
    have "enforcements a w1 \<le> 1 \<and> (a \<notin> blocked_ips w1 \<longrightarrow> enforcements a w1 = 0)" for a
      using o[of a] None by simp
    from Cons.IH[OF ev this] show ?thesis .
  next
    case (Some x)
    with Cons.prems(1) item c have "w' = w1" "r = Some x" by simp_all
    with o[of a] show ?thesis by simp
  qed
qed

lemma idle_cycle_once:
  assumes c: "idle_cycle cfg e now w = (r, w')"
    and k: "\<And>a. enforcements a w \<le> 1 \<and> (a \<notin> blocked_ips w \<longrightarrow> enforcements a w = 0)"
  shows "enforcements a w' \<le> 1 \<and> (r = None \<and> a \<notin> blocked_ips w' \<longrightarrow> enforcements a w' = 0)"
  using c
proof (cases rule: idle_cycle_cases)
  case (discovery x)
  from discover_devices_frame(2,3)[OF discovery(1)] quiet_step(2) discovery(2) k[of a]
  show ?thesis by simp
next
  case (seeding ips w1 x)
  note f1 = discover_devices_frame(2,3)[OF seeding(1)]
  note f2 = seed_devices_frame[OF seeding(2)]
  from f1 f2 have "grows no_action w w'" by (blast intro: grows_trans)
  from quiet_step(2)[OF this] seeding(3) k[of a] show ?thesis by simp
next
  case (evaluation ips w1 w2)
  note f1 = discover_devices_frame(2,3)[OF evaluation(1)]
  note f2 = seed_devices_frame[OF evaluation(2)]
  from f1 f2 have g: "grows no_action w w2" by (blast intro: grows_trans)
  from f1 f2 have b: "blocked_ips w2 = blocked_ips w" by simp
  have "enforcements a w2 \<le> 1 \<and> (a \<notin> blocked_ips w2 \<longrightarrow> enforcements a w2 = 0)" for a
    using quiet_step(2)[OF g, of a] b k[of a] by simp
  from evaluate_once[OF evaluation(3) this] show ?thesis .
qed

lemma idle_checker_once:
  "idle_checker cfg ins w = (r, w')
   \<Longrightarrow> (\<And>a. enforcements a w \<le> 1 \<and> (a \<notin> blocked_ips w \<longrightarrow> enforcements a w = 0))
   \<Longrightarrow> enforcements a w' \<le> 1"
proof (induction cfg ins w rule: idle_checker.induct)
  case (1 cfg w)
  then show ?case by simp
next
  case (2 cfg now pkt ins w)
  from "2.prems"(1) have "idle_checker cfg ins (packet_handler now pkt w) = (r, w')" by simp
  moreover have "enforcements a (packet_handler now pkt w) \<le> 1
      \<and> (a \<notin> blocked_ips (packet_handler now pkt w) \<longrightarrow> enforcements a (packet_handler now pkt w) = 0)"
    for a
    using "2.prems"(2)[of a] by (simp add: packet_handler_frame enforcements_def)
  ultimately show ?case by (rule "2.IH")
next
  case (3 cfg now e ins w)
  obtain r1 w1 where c: "idle_cycle cfg e now w = (r1, w1)" by (cases "idle_cycle cfg e now w")
  note o = idle_cycle_once[OF c "3.prems"(2)]
  show ?case
  proof (cases r1)
    case None
    with "3.prems"(1) c have ic: "idle_checker cfg ins w1 = (r, w')" by simp
    have "enforcements a w1 \<le> 1 \<and> (a \<notin> blocked_ips w1 \<longrightarrow> enforcements a w1 = 0)" for a
      using o[of a] None by simp
    from "3.IH"[OF c[symmetric] None ic this] show ?thesis .
  next
    case (Some x)
    with "3.prems"(1) c have "w' = w1" by simp
    with o[of a] show ?thesis by simp
  qed
qed

corollary enforced_at_most_once:
  "enforcements a (snd (idle_checker cfg ins init_world)) \<le> 1"
proof -
  have "enforcements a init_world \<le> 1
      \<and> (a \<notin> blocked_ips init_world \<longrightarrow> enforcements a init_world = 0)" for a
    by (simp add: init_world_def enforcements_def)
  with idle_checker_once[of cfg ins init_world "fst (idle_checker cfg ins init_world)"
        "snd (idle_checker cfg ins init_world)" a]
  show ?thesis by simp
qed

text \<open>The representation invariant of the dictionary holds in every reachable state.\<close>

corollary reachable_distinct:
  "distinct (map fst (last_activity (snd (idle_checker cfg ins init_world))))"
  using idle_checker_frame[of cfg ins init_world "fst (idle_checker cfg ins init_world)"
        "snd (idle_checker cfg ins init_world)"]
  by (simp add: init_world_def)

subsection \<open>A cycle in which no call raises runs to completion\<close>

lemma run_commands_quiet:
  "\<forall>c. raises e c = None \<Longrightarrow> fst (run_commands e cs w) = None"
  by (induction cs arbitrary: w) (simp_all add: perform_def)

lemma block_ip_quiet:
  assumes "\<forall>c. raises e c = None"
  shows "fst (block_ip e a w) = None"
proof -
  let ?w0 = "emit (Enter_block_ip a) None w"
  obtain r1 w1 where rc: "run_commands e (firewall_commands (os e) a) ?w0 = (r1, w1)"
    by (cases "run_commands e (firewall_commands (os e) a) ?w0")
  with run_commands_quiet[OF assms, of "firewall_commands (os e) a" ?w0] have "r1 = None" by simp
  with rc assms show ?thesis
    by (simp add: block_ip_def then_do_def log_def perform_def)
qed

lemma play_sound_quiet:
  "\<forall>c. raises e c = None \<Longrightarrow> fst (play_sound e a w) = None"
  by (simp add: play_sound_def perform_def)

lemma check_ip_quiet:
  assumes "\<forall>c. raises e c = None"
  shows "fst (check_ip cfg e now item w) = None"
proof -
  obtain b s where item: "item = (b, s)" by (cases item)
  obtain r w' where c: "check_ip cfg e now (b, s) w = (r, w')"
    by (cases "check_ip cfg e now (b, s) w")
  have "r = None"
  proof (cases "b \<noteq> broadcast \<and> IDLE_TIMEOUT cfg * 1000000 \<le> now - s \<and> b \<notin> blocked_ips w")
    case False
    then have "check_ip cfg e now (b, s) w = (None, w)"
      by (intro check_ip_skip) auto
    with c show ?thesis by simp
  next
    case True
    then have x: "b \<noteq> broadcast" "IDLE_TIMEOUT cfg * 1000000 \<le> now - s" "b \<notin> blocked_ips w"
      by simp_all
    from c x show ?thesis
    proof (cases rule: check_ip_stages)
      case (log_raised x)
      with assms show ?thesis by simp
    next
      case (notify_raised x)
      with assms show ?thesis by simp
    next
      case (sound_raised x)
      with play_sound_quiet[OF assms, of b] show ?thesis by (metis fst_conv option.distinct(1))
    next
      case (block_raised x w3)
      with block_ip_quiet[OF assms, of b w3] show ?thesis by simp
    next
      case (handled w3 w4)
      then show ?thesis by simp
    qed
  qed
  with c item show ?thesis by simp
qed

lemma evaluate_quiet:
  "\<forall>c. raises e c = None \<Longrightarrow> fst (evaluate cfg e now items w) = None"
proof (induction items arbitrary: w)
  case Nil
  then show ?case by simp
next
  case (Cons item items)
  obtain r1 w1 where c: "check_ip cfg e now item w = (r1, w1)" by (cases "check_ip cfg e now item w")
  with check_ip_quiet[OF Cons.prems, of cfg now item w] have "r1 = None" by simp
  with c Cons show ?case by simp
qed

lemma seed_devices_quiet:
  "\<forall>c. raises e c = None \<Longrightarrow> fst (seed_devices e now ips w) = None"
  by (induction ips arbitrary: w) (simp_all add: log_def perform_def)

lemma discover_devices_quiet:
  "\<forall>c. raises e c = None \<Longrightarrow> \<exists>ips. fst (discover_devices e w) = Inr ips"
  by (auto simp: discover_devices_def log_def perform_def split: prod.splits option.splits)

lemma idle_cycle_quiet:
  assumes "\<forall>c. raises e c = None"
  shows "fst (idle_cycle cfg e now w) = None"
proof -
  from discover_devices_quiet[OF assms, of w]
  obtain ips w1 where d: "discover_devices e w = (Inr ips, w1)"
    by (metis prod.collapse)
  obtain r2 w2 where s: "seed_devices e now ips w1 = (r2, w2)"
    by (cases "seed_devices e now ips w1")
  with seed_devices_quiet[OF assms, of now ips w1] have "r2 = None" by simp
  with d s evaluate_quiet[OF assms, of cfg now "last_activity w2" w2] show ?thesis
    by (simp add: idle_cycle_def then_do_def)
qed

subsection \<open>Failures that are contained when the handler's log line is written\<close>

lemma firewall_failure_contained_if_logged:
  assumes "a \<noteq> broadcast"
    and "IDLE_TIMEOUT cfg * 1000000 \<le> now - s"
    and "a \<notin> blocked_ips w"
    and "AGGRESSIVE_MODE cfg"
    and "raises e (Log (Msg_idle a (IDLE_TIMEOUT cfg))) = None"
    and "raises e (Notify a (IDLE_TIMEOUT cfg)) = None"
    and "play_sound e a (emit (Notify a (IDLE_TIMEOUT cfg)) None
           (emit (Log (Msg_idle a (IDLE_TIMEOUT cfg))) None w)) = (None, w3)"
    and "first_failure e (firewall_commands (os e) a) = Some x"
    and "raises e (Log (Msg_block_failed a x)) = None"
  shows "\<exists>w1 evs. evaluate cfg e now ((a, s) # rest) w = evaluate cfg e now rest w1
          \<and> blocked_ips w1 = insert a (blocked_ips w)
          \<and> last_activity w1 = last_activity w
          \<and> trace w1 = trace w @ evs @ [(Log (Msg_block_failed a x), None)]"
proof -
  let ?T = "IDLE_TIMEOUT cfg"
  let ?w2 = "emit (Notify a ?T) None (emit (Log (Msg_idle a ?T)) None w)"
  from block_ip_command_fails[OF assms(8,9), of w3]
  obtain w4 evs where b: "block_ip e a w3 = (None, w4)"
    and f: "last_activity w4 = last_activity w3" "blocked_ips w4 = blocked_ips w3"
    and t: "trace w4 = trace w3 @ evs @ [(Log (Msg_block_failed a x), None)]"
    by blast
  let ?w1 = "w4\<lparr>blocked_ips := insert a (blocked_ips w4)\<rparr>"
  have c: "check_ip cfg e now (a, s) w = (None, ?w1)"
    using assms(1-7) b
    by (simp add: check_ip_def then_do_def log_def notify_def perform_def)
  note ps = play_sound_frame(1,2)[OF assms(7)]
  from play_sound_frame(3)[OF assms(7), of a]
  obtain evs0 where t3: "trace w3 = trace ?w2 @ evs0" by (auto simp: grows_def)
  have "evaluate cfg e now ((a, s) # rest) w = evaluate cfg e now rest ?w1"
    using c by simp
  moreover have "blocked_ips ?w1 = insert a (blocked_ips w)"
    using f(2) ps by simp
  moreover have "last_activity ?w1 = last_activity w"
    using f(1) ps by simp
  moreover have "trace ?w1 = trace w
      @ ((Log (Msg_idle a ?T), None) # (Notify a ?T, None) # evs0 @ evs)
      @ [(Log (Msg_block_failed a x), None)]"
    using t t3 by simp
  ultimately show ?thesis by blast
qed

lemma arp_failure_contained_if_logged:
  assumes "raises e (if os e = Windows then Arp_a else Arp_n) = Some x"
    and "raises e (Log (Msg_arp_failed x)) = None"
  shows "discover_devices e w =
           (Inr [], w\<lparr>trace := trace w @ [(if os e = Windows then Arp_a else Arp_n, Some x),
                                          (Log (Msg_arp_failed x), None)]\<rparr>)
     \<and> idle_cycle cfg e now w =
           evaluate cfg e now (last_activity w)
             (w\<lparr>trace := trace w @ [(if os e = Windows then Arp_a else Arp_n, Some x),
                                    (Log (Msg_arp_failed x), None)]\<rparr>)"
proof -
  have d: "discover_devices e w =
           (Inr [], w\<lparr>trace := trace w @ [(if os e = Windows then Arp_a else Arp_n, Some x),
                                          (Log (Msg_arp_failed x), None)]\<rparr>)"
    using assms
    by (simp add: discover_devices_def arp_query_def perform_def emit_def log_def
             split: if_splits)
  then show ?thesis
    by (simp add: idle_cycle_def then_do_def)
qed

section \<open>The properties of the specification\<close>

text \<open>
  In the theorems below an address is "classified" by a cycle when the evaluation loop
  computes its idle duration, which it does for every entry of the dictionary except the
  broadcast address (the loop skips that one first, see C10). A cycle "runs to completion"
  when no exception leaves it: \<open>idle_cycle\<close> returns \<open>None\<close>, as it does whenever no call
  raises (\<open>idle_cycle_quiet\<close>). The hypothesis \<open>distinct (map fst (last_activity w))\<close> says that the association
  list is a dictionary; it holds in every reachable state (\<open>reachable_distinct\<close>).
\<close>

text \<open>
  C1. In a cycle that runs to completion, an address whose idle duration has reached the
  threshold and that is not yet in the blocked set has \<open>block_ip\<close> entered for it exactly
  once (aggressive mode, the setting of the source) and is added to the blocked set. Whatever
  happens afterwards (frames, further cycles that again find it idle, failures), the gate on
  the blocked set keeps every later cycle from taking any action on it: the number of
  enforcement actions stays what it was, and so does the list of all actions on the address.
\<close>

theorem block_fires_exactly_once:
  assumes "distinct (map fst (last_activity w))"
    and "map_of (last_activity w) a = Some s"
    and "a \<noteq> broadcast"
    and "IDLE_TIMEOUT cfg * 1000000 \<le> now - s"
    and "a \<notin> blocked_ips w"
    and "AGGRESSIVE_MODE cfg"
    and "idle_cycle cfg e now w = (None, w1)"
    and "idle_checker cfg ins w1 = (r, w2)"
  shows "enforcements a w1 = Suc (enforcements a w) \<and> a \<in> blocked_ips w1
     \<and> enforcements a w2 = enforcements a w1 \<and> actions_on a w2 = actions_on a w1"
proof -
  from idle_cycle_fires[OF assms(7,1,2,3,4,5)] assms(6)
  have f: "a \<in> blocked_ips w1" "enforcements a w1 = Suc (enforcements a w)" by simp_all
  from idle_cycle_frame(2)[OF assms(7,1)] have d1: "distinct (map fst (last_activity w1))" .
  from idle_checker_gate[OF assms(8) d1] f(1)
  have "actions_on a w2 = actions_on a w1 \<and> enforcements a w2 = enforcements a w1" by simp
  with f show ?thesis by simp
qed

theorem block_fires_exactly_once_witness:
  "distinct (map fst (last_activity (seen_world 0)))
   \<and> map_of (last_activity (seen_world 0)) host = Some 0
   \<and> host \<noteq> broadcast
   \<and> IDLE_TIMEOUT default_config * 1000000 \<le> 10000000 - 0
   \<and> host \<notin> blocked_ips (seen_world 0)
   \<and> AGGRESSIVE_MODE default_config
   \<and> fst (idle_cycle default_config quiet_env 10000000 (seen_world 0)) = None
   \<and> enforcements host (seen_world 0) = 0
   \<and> enforcements host (snd (idle_cycle default_config quiet_env 10000000 (seen_world 0))) = 1
   \<and> enforcements host (snd (idle_checker default_config
         [Cycle 15000000 quiet_env, Frame 16000000 (Some (host, broadcast)), Cycle 30000000 quiet_env]
         (snd (idle_cycle default_config quiet_env 10000000 (seen_world 0))))) = 1"
proof -
  let ?w = "seen_world 0"
  let ?c = "idle_cycle default_config quiet_env 10000000 ?w"
  let ?ins = "[Cycle 15000000 quiet_env, Frame 16000000 (Some (host, broadcast)),
               Cycle 30000000 quiet_env]"
  let ?k = "idle_checker default_config ?ins (snd ?c)"
  have h1: "distinct (map fst (last_activity ?w))" by code_simp
  have h2: "map_of (last_activity ?w) host = Some 0" by code_simp
  have h3: "host \<noteq> broadcast" by code_simp
  have h4: "IDLE_TIMEOUT default_config * 1000000 \<le> 10000000 - 0" by code_simp
  have h5: "host \<notin> blocked_ips ?w" by code_simp
  have h6: "AGGRESSIVE_MODE default_config" by code_simp
  have h7: "fst ?c = None" by code_simp
  then have h7': "?c = (None, snd ?c)" by (metis prod.collapse)
  have h8: "?k = (fst ?k, snd ?k)" by simp
  have h9: "enforcements host ?w = 0" by code_simp
  from block_fires_exactly_once[OF h1 h2 h3 h4 h5 h6 h7' h8] h9
  have "enforcements host (snd ?c) = 1 \<and> enforcements host (snd ?k) = 1" by simp
  with h1 h2 h3 h4 h5 h6 h7 h9 show ?thesis by blast
qed

text \<open>
  C2. Blocked status is terminal: an address in the blocked set is still in it after any
  run of the process (any sequence of frames and cycles, whether or not an exception ends
  it), and after each single operation: packet handling, discovery, seeding, the evaluation
  loop, and \<open>block_ip\<close>.
\<close>

theorem blocked_is_terminal:
  assumes "a \<in> blocked_ips w"
  shows "a \<in> blocked_ips (snd (idle_checker cfg ins w))
     \<and> a \<in> blocked_ips (packet_handler now pkt w)
     \<and> a \<in> blocked_ips (snd (discover_devices e w))
     \<and> a \<in> blocked_ips (snd (seed_devices e now ips w))
     \<and> a \<in> blocked_ips (snd (evaluate cfg e now items w))
     \<and> a \<in> blocked_ips (snd (block_ip e b w))"
proof -
  have "blocked_ips w \<subseteq> blocked_ips (snd (idle_checker cfg ins w))"
    using idle_checker_frame[of cfg ins w] by (metis prod.collapse)
  moreover have "blocked_ips (snd (discover_devices e w)) = blocked_ips w"
    using discover_devices_frame(2)[of e w] by (metis prod.collapse)
  moreover have "blocked_ips (snd (seed_devices e now ips w)) = blocked_ips w"
    using seed_devices_frame[of e now ips w] by (metis prod.collapse)
  moreover have "blocked_ips w \<subseteq> blocked_ips (snd (evaluate cfg e now items w))"
    using evaluate_frame[of cfg e now items w] by (metis prod.collapse)
  moreover have "blocked_ips (snd (block_ip e b w)) = blocked_ips w"
    using block_ip_frame(2)[of e b w] by (metis prod.collapse)
  ultimately show ?thesis
    using assms by (auto simp: packet_handler_frame)
qed

theorem blocked_is_terminal_witness:
  "host \<in> blocked_ips ((seen_world 0)\<lparr>blocked_ips := {host}\<rparr>)
   \<and> host \<in> blocked_ips (snd (idle_checker default_config
        [Frame 1000000 (Some (host, other_host)), Cycle 20000000 two_hosts_env]
        ((seen_world 0)\<lparr>blocked_ips := {host}\<rparr>)))
   \<and> blocked_ips (snd (idle_checker default_config
        [Frame 1000000 (Some (host, other_host)), Cycle 20000000 two_hosts_env]
        ((seen_world 0)\<lparr>blocked_ips := {host}\<rparr>))) = {host, other_host}"
proof -
  let ?w = "(seen_world 0)\<lparr>blocked_ips := {host}\<rparr>"
  let ?ins = "[Frame 1000000 (Some (host, other_host)), Cycle 20000000 two_hosts_env]"
  have h: "host \<in> blocked_ips ?w" by code_simp
  have c: "blocked_ips (snd (idle_checker default_config ?ins ?w)) = {host, other_host}"
    by code_simp
  from blocked_is_terminal[OF h, of default_config ?ins] h c show ?thesis by blast
qed

text \<open>
  C3. The boundary of the idle threshold is inclusive. Take a cycle that runs to completion
  and an address the loop classifies, not yet blocked, last seen at \<open>s\<close>. If \<open>s\<close> is exactly
  \<open>now - T\<close>, the address is handled as idle: the audit line and the notification come
  first among the new actions on it, \<open>block_ip\<close> is entered once in aggressive mode, and it
  joins the blocked set. If \<open>s\<close> is later than \<open>now - T\<close> by any amount, the cycle takes no
  action on it and does not block it.
\<close>

theorem idle_threshold_inclusive:
  assumes "distinct (map fst (last_activity w))"
    and "map_of (last_activity w) a = Some s"
    and "a \<noteq> broadcast"
    and "a \<notin> blocked_ips w"
    and "idle_cycle cfg e now w = (None, w')"
  shows "(s = now - IDLE_TIMEOUT cfg * 1000000 \<longrightarrow>
            a \<in> blocked_ips w'
            \<and> enforcements a w' = (if AGGRESSIVE_MODE cfg then Suc (enforcements a w)
                                     else enforcements a w)
            \<and> (\<exists>evs. actions_on a w' = actions_on a w
                  @ (Log (Msg_idle a (IDLE_TIMEOUT cfg)), None)
                  # (Notify a (IDLE_TIMEOUT cfg), None) # evs))
       \<and> (now - IDLE_TIMEOUT cfg * 1000000 < s \<longrightarrow>
            a \<notin> blocked_ips w' \<and> actions_on a w' = actions_on a w)"
proof (intro conjI impI)
  assume "now - IDLE_TIMEOUT cfg * 1000000 < s"
  then have old: "a = broadcast \<or> a \<in> blocked_ips w \<or> now - t < IDLE_TIMEOUT cfg * 1000000"
    if "map_of (last_activity w) a = Some t" for t
    using that assms(2) by simp
  from idle_cycle_untouched[OF assms(5,1) old] assms(2,4)
  show "a \<notin> blocked_ips w'" "actions_on a w' = actions_on a w" by simp_all
next
  assume "s = now - IDLE_TIMEOUT cfg * 1000000"
  then have x: "IDLE_TIMEOUT cfg * 1000000 \<le> now - s" by simp
  note f = idle_cycle_fires[OF assms(5,1,2,3) x assms(4)]
  from f show "a \<in> blocked_ips w'" by simp
  from f show "enforcements a w' = (if AGGRESSIVE_MODE cfg then Suc (enforcements a w)
                                     else enforcements a w)" by simp
  from f show "\<exists>evs. actions_on a w' = actions_on a w
                  @ (Log (Msg_idle a (IDLE_TIMEOUT cfg)), None)
                  # (Notify a (IDLE_TIMEOUT cfg), None) # evs" by simp
qed

theorem idle_threshold_inclusive_witness:
  "distinct (map fst (last_activity (seen_world 0)))
   \<and> map_of (last_activity (seen_world 0)) host = Some 0
   \<and> map_of (last_activity (seen_world 1000)) host = Some 1000
   \<and> host \<noteq> broadcast \<and> host \<notin> blocked_ips (seen_world 0)
   \<and> fst (idle_cycle default_config quiet_env 10000000 (seen_world 0)) = None
   \<and> fst (idle_cycle default_config quiet_env 10000000 (seen_world 1000)) = None
   \<and> (0::int) = 10000000 - IDLE_TIMEOUT default_config * 1000000
   \<and> 10000000 - IDLE_TIMEOUT default_config * 1000000 < (1000::int)
   \<and> host \<in> blocked_ips (snd (idle_cycle default_config quiet_env 10000000 (seen_world 0)))
   \<and> enforcements host (snd (idle_cycle default_config quiet_env 10000000 (seen_world 0))) = 1
   \<and> host \<notin> blocked_ips (snd (idle_cycle default_config quiet_env 10000000 (seen_world 1000)))
   \<and> actions_on host (snd (idle_cycle default_config quiet_env 10000000 (seen_world 1000))) = []"
proof -
  let ?c0 = "idle_cycle default_config quiet_env 10000000 (seen_world 0)"
  let ?c1 = "idle_cycle default_config quiet_env 10000000 (seen_world 1000)"
  have d0: "distinct (map fst (last_activity (seen_world 0)))" by code_simp
  have d1: "distinct (map fst (last_activity (seen_world 1000)))" by code_simp
  have m0: "map_of (last_activity (seen_world 0)) host = Some 0" by code_simp
  have m1: "map_of (last_activity (seen_world 1000)) host = Some 1000" by code_simp
  have nb: "host \<noteq> broadcast" by code_simp
  have b0: "host \<notin> blocked_ips (seen_world 0)" by code_simp
  have b1: "host \<notin> blocked_ips (seen_world 1000)" by code_simp
  have r0: "fst ?c0 = None" by code_simp
  have r1: "fst ?c1 = None" by code_simp
  have c0: "?c0 = (None, snd ?c0)" using r0 by (metis prod.collapse)
  have c1: "?c1 = (None, snd ?c1)" using r1 by (metis prod.collapse)
  have t0: "(0::int) = 10000000 - IDLE_TIMEOUT default_config * 1000000" by code_simp
  have t1: "10000000 - IDLE_TIMEOUT default_config * 1000000 < (1000::int)" by code_simp
  have a0: "enforcements host (seen_world 0) = 0" "AGGRESSIVE_MODE default_config"
    "actions_on host (seen_world 1000) = []" by code_simp+
  from idle_threshold_inclusive[OF d0 m0 nb b0 c0] t0 a0
  have k0: "host \<in> blocked_ips (snd ?c0) \<and> enforcements host (snd ?c0) = 1" by simp
  from idle_threshold_inclusive[OF d1 m1 nb b1 c1] t1 a0
  have k1: "host \<notin> blocked_ips (snd ?c1) \<and> actions_on host (snd ?c1) = []" by simp
  from d0 m0 m1 nb b0 r0 r1 t0 t1 k0 k1 show ?thesis by blast
qed

text \<open>
  C4 as the specification states it does not hold: the packet handler records the source
  and the destination of every IP frame, so one frame addressed to 255.255.255.255 makes
  the broadcast address a key of the dictionary.
\<close>

theorem packet_handler_records_broadcast:
  "dict_mem broadcast (last_activity (snd (idle_checker default_config
      [Frame 0 (Some (host, broadcast))] init_world)))"
  by code_simp

text \<open>
  C4, as the code has it. A cycle of the idle checker never puts the broadcast address
  255.255.255.255 into the dictionary, however often the ARP table lists it: if it is not a
  key before the cycle, it is not one after.
\<close>

theorem discovery_never_seeds_broadcast:
  assumes "\<not> dict_mem broadcast (last_activity w)"
    and "idle_cycle cfg e now w = (r, w')"
  shows "\<not> dict_mem broadcast (last_activity w')"
  using idle_cycle_frame(4)[OF assms(2), where a = broadcast] assms(1)
  by (simp add: dict_mem_def)

theorem discovery_never_seeds_broadcast_witness:
  "\<not> dict_mem broadcast (last_activity init_world)
   \<and> fst (discover_devices broadcast_env init_world) = Inr [broadcast]
   \<and> \<not> dict_mem broadcast
         (last_activity (snd (idle_cycle default_config broadcast_env 5000000 init_world)))"
proof -
  let ?c = "idle_cycle default_config broadcast_env 5000000 init_world"
  have h: "\<not> dict_mem broadcast (last_activity init_world)" by code_simp
  have d: "fst (discover_devices broadcast_env init_world) = Inr [broadcast]" by code_simp
  have "?c = (fst ?c, snd ?c)" by simp
  from discovery_never_seeds_broadcast[OF h this] h d show ?thesis by blast
qed

text \<open>
  C5. An address that discovery returns and that is not yet a key of the dictionary is
  seeded with the time of the cycle, and for a positive threshold the evaluation loop of
  the same cycle takes no action on it and leaves its blocked status as it was.
\<close>

theorem new_device_is_fresh:
  assumes "distinct (map fst (last_activity w))"
    and "map_of (last_activity w) a = None"
    and "discover_devices e w = (Inr ips, w1)"
    and "a \<in> set ips"
    and "a \<noteq> broadcast"
    and "0 < IDLE_TIMEOUT cfg"
    and "idle_cycle cfg e now w = (None, w')"
  shows "map_of (last_activity w') a = Some now
     \<and> actions_on a w' = actions_on a w
     \<and> enforcements a w' = enforcements a w
     \<and> (a \<in> blocked_ips w' \<longleftrightarrow> a \<in> blocked_ips w)"
proof -
  have "map_of (last_activity w') a = Some now"
    using assms(7)
  proof (cases rule: idle_cycle_cases)
    case (evaluation ips' w1' w2)
    with assms(3) have sd: "seed_devices e now ips w1 = (None, w2)" by simp
    from discover_devices_frame(1)[OF assms(3)] assms(2)
    have "map_of (last_activity w1) a = None" by simp
    with seed_devices_registry[OF sd, of a] assms(4,5)
    have "map_of (last_activity w2) a = Some now" by auto
    with evaluate_frame[OF evaluation(3)] show ?thesis by simp
  qed simp_all
  moreover have "actions_on a w' = actions_on a w \<and> enforcements a w' = enforcements a w
     \<and> (a \<in> blocked_ips w' \<longleftrightarrow> a \<in> blocked_ips w)"
    using assms(2,6) by (intro idle_cycle_untouched[OF assms(7,1)]) simp_all
  ultimately show ?thesis by simp
qed

theorem new_device_is_fresh_witness:
  "distinct (map fst (last_activity (seen_world 0)))
   \<and> map_of (last_activity (seen_world 0)) other_host = None
   \<and> fst (discover_devices two_hosts_env (seen_world 0)) = Inr [host, other_host]
   \<and> other_host \<in> set [host, other_host] \<and> other_host \<noteq> broadcast
   \<and> 0 < IDLE_TIMEOUT default_config
   \<and> fst (idle_cycle default_config two_hosts_env 20000000 (seen_world 0)) = None
   \<and> map_of (last_activity (snd (idle_cycle default_config two_hosts_env 20000000 (seen_world 0))))
        other_host = Some 20000000
   \<and> actions_on other_host (snd (idle_cycle default_config two_hosts_env 20000000 (seen_world 0))) = []
   \<and> blocked_ips (snd (idle_cycle default_config two_hosts_env 20000000 (seen_world 0))) = {host}"
proof -
  let ?w = "seen_world 0"
  let ?d = "discover_devices two_hosts_env ?w"
  let ?c = "idle_cycle default_config two_hosts_env 20000000 ?w"
  have h1: "distinct (map fst (last_activity ?w))" by code_simp
  have h2: "map_of (last_activity ?w) other_host = None" by code_simp
  have h3: "fst ?d = Inr [host, other_host]" by code_simp
  then have h3': "?d = (Inr [host, other_host], snd ?d)" by (metis prod.collapse)
  have h4: "other_host \<in> set [host, other_host]" by simp
  have h5: "other_host \<noteq> broadcast" by code_simp
  have h6: "0 < IDLE_TIMEOUT default_config" by code_simp
  have h7: "fst ?c = None" by code_simp
  then have h7': "?c = (None, snd ?c)" by (metis prod.collapse)
  have a0: "actions_on other_host ?w = []" by code_simp
  have b: "blocked_ips (snd ?c) = {host}" by code_simp
  from new_device_is_fresh[OF h1 h2 h3' h4 h5 h6 h7'] a0
  have "map_of (last_activity (snd ?c)) other_host = Some 20000000
      \<and> actions_on other_host (snd ?c) = []" by simp
  with h1 h2 h3 h4 h5 h6 h7 b show ?thesis by blast
qed

text \<open>
  C6, where the code departs from it. \<open>block_ip\<close> catches the exception of a failing
  firewall command, but its handler reports through \<open>log\<close>, which is not guarded. When that
  log line cannot be written either, the exception leaves \<open>block_ip\<close> and the cycle: the
  address is not added to the blocked set, the remaining addresses are not evaluated, and
  the idle checker ends. (When the line is written, the failure is contained: the cycle
  runs to completion and both addresses end up blocked.)
\<close>

theorem firewall_failure_can_end_the_loop:
  "fst (idle_cycle default_config
          (failing_calls [Iptables Dir_in host, Log (Msg_block_failed host (Raised ''Error''))])
          10000000 two_seen_world) = Some (Raised ''Error'')
   \<and> trace (snd (idle_cycle default_config
          (failing_calls [Iptables Dir_in host, Log (Msg_block_failed host (Raised ''Error''))])
          10000000 two_seen_world))
     = [(Arp_n, None), (Log (Msg_idle host 10), None), (Notify host 10, None),
        (Playsound host, None), (Enter_block_ip host, None),
        (Iptables Dir_in host, Some (Raised ''Error'')),
        (Log (Msg_block_failed host (Raised ''Error'')), Some (Raised ''Error''))]
   \<and> blocked_ips (snd (idle_cycle default_config
          (failing_calls [Iptables Dir_in host, Log (Msg_block_failed host (Raised ''Error''))])
          10000000 two_seen_world)) = {}
   \<and> actions_on other_host (snd (idle_cycle default_config
          (failing_calls [Iptables Dir_in host, Log (Msg_block_failed host (Raised ''Error''))])
          10000000 two_seen_world)) = []
   \<and> fst (idle_cycle default_config (failing_env (Iptables Dir_in host))
          10000000 two_seen_world) = None
   \<and> blocked_ips (snd (idle_cycle default_config (failing_env (Iptables Dir_in host))
          10000000 two_seen_world)) = {host, other_host}"
  by code_simp

text \<open>
  C7, where the code departs from it. The notification is not guarded: when
  \<open>notification.notify\<close> raises for an idle address, the exception leaves the cycle, so
  \<open>block_ip\<close> is never entered for the address, the address is not added to the blocked set,
  and the idle checker ends. The same holds when the audit line cannot be written.
\<close>

theorem notify_failure_prevents_block:
  "fst (idle_cycle default_config (failing_env (Notify host 10)) 10000000 (seen_world 0))
     = Some (Raised ''Error'')
   \<and> trace (snd (idle_cycle default_config (failing_env (Notify host 10)) 10000000 (seen_world 0)))
     = [(Arp_n, None), (Log (Msg_idle host 10), None), (Notify host 10, Some (Raised ''Error''))]
   \<and> enforcements host
       (snd (idle_cycle default_config (failing_env (Notify host 10)) 10000000 (seen_world 0))) = 0
   \<and> blocked_ips
       (snd (idle_cycle default_config (failing_env (Notify host 10)) 10000000 (seen_world 0))) = {}
   \<and> fst (idle_cycle default_config (failing_env (Log (Msg_idle host 10))) 10000000 (seen_world 0))
     = Some (Raised ''Error'')
   \<and> enforcements host
       (snd (idle_cycle default_config (failing_env (Log (Msg_idle host 10))) 10000000
              (seen_world 0))) = 0
   \<and> enforcements host
       (snd (idle_cycle default_config (failing_env (Playsound host)) 10000000 (seen_world 0))) = 1"
  by code_simp

text \<open>
  C8, where the code departs from it. \<open>discover_devices\<close> catches the exception of the ARP
  query, but its handler reports through \<open>log\<close>, which is not guarded. When that log line
  cannot be written either, the exception leaves \<open>discover_devices\<close> and the idle checker
  ends: no address is evaluated in this cycle and no later cycle runs. (When the line is
  written, discovery returns the empty set and the cycle runs to completion.)
\<close>

theorem arp_failure_can_end_the_loop:
  "fst (discover_devices (failing_calls [Arp_n, Log (Msg_arp_failed (Raised ''Error''))])
          (seen_world 0)) = Inl (Raised ''Error'')
   \<and> fst (idle_checker default_config
          [Cycle 10000000 (failing_calls [Arp_n, Log (Msg_arp_failed (Raised ''Error''))]),
           Cycle 20000000 quiet_env]
          (seen_world 0)) = Some (Raised ''Error'')
   \<and> trace (snd (idle_checker default_config
          [Cycle 10000000 (failing_calls [Arp_n, Log (Msg_arp_failed (Raised ''Error''))]),
           Cycle 20000000 quiet_env]
          (seen_world 0)))
     = [(Arp_n, Some (Raised ''Error'')),
        (Log (Msg_arp_failed (Raised ''Error'')), Some (Raised ''Error''))]
   \<and> blocked_ips (snd (idle_checker default_config
          [Cycle 10000000 (failing_calls [Arp_n, Log (Msg_arp_failed (Raised ''Error''))]),
           Cycle 20000000 quiet_env]
          (seen_world 0))) = {}
   \<and> fst (discover_devices (failing_env Arp_n) (seen_world 0)) = Inr []
   \<and> fst (idle_checker default_config
          [Cycle 10000000 (failing_env Arp_n), Cycle 20000000 quiet_env]
          (seen_world 0)) = None
   \<and> blocked_ips (snd (idle_checker default_config
          [Cycle 10000000 (failing_env Arp_n), Cycle 20000000 quiet_env]
          (seen_world 0))) = {host}"
  by code_simp

text \<open>
  C9. Discovery followed by the seeding loop leaves the blocked set alone and leaves the
  time of every address that is already a key of the dictionary as it was; an address that
  was not a key is afterwards either still not one or has the time of the cycle and was
  returned by discovery. When the loop runs to completion, every returned address that was
  not a key (the broadcast address apart) has the time of the cycle.
\<close>

theorem seeding_only_adds_absent:
  assumes "discover_devices e w = (Inr ips, w1)"
    and "seed_devices e now ips w1 = (r, w2)"
  shows "blocked_ips w2 = blocked_ips w
     \<and> (\<forall>a s. map_of (last_activity w) a = Some s \<longrightarrow> map_of (last_activity w2) a = Some s)
     \<and> (\<forall>a. map_of (last_activity w) a = None \<longrightarrow>
              map_of (last_activity w2) a = None
              \<or> map_of (last_activity w2) a = Some now \<and> a \<in> set ips)
     \<and> (r = None \<longrightarrow> (\<forall>a\<in>set ips. a \<noteq> broadcast \<longrightarrow> map_of (last_activity w) a = None \<longrightarrow>
              map_of (last_activity w2) a = Some now))"
proof -
  note d = discover_devices_frame(1,2)[OF assms(1)]
  note s = seed_devices_frame[OF assms(2)]
  have reg: "(\<forall>s. map_of (last_activity w) a = Some s \<longrightarrow> map_of (last_activity w2) a = Some s)
     \<and> (map_of (last_activity w) a = None \<longrightarrow>
          map_of (last_activity w2) a = None
          \<or> map_of (last_activity w2) a = Some now \<and> a \<in> set ips \<and> a \<noteq> broadcast)
     \<and> (r = None \<and> a \<in> set ips \<and> a \<noteq> broadcast \<longrightarrow> map_of (last_activity w2) a \<noteq> None)" for a
    using seed_devices_registry[OF assms(2), of a] d(1) by simp
  have "blocked_ips w2 = blocked_ips w" using d s by simp
  moreover have "\<forall>a s. map_of (last_activity w) a = Some s \<longrightarrow> map_of (last_activity w2) a = Some s"
    using reg by blast
  moreover have "\<forall>a. map_of (last_activity w) a = None \<longrightarrow>
              map_of (last_activity w2) a = None
              \<or> map_of (last_activity w2) a = Some now \<and> a \<in> set ips"
    using reg by blast
  moreover have "r = None \<longrightarrow> (\<forall>a\<in>set ips. a \<noteq> broadcast \<longrightarrow> map_of (last_activity w) a = None \<longrightarrow>
              map_of (last_activity w2) a = Some now)"
    using reg by blast
  ultimately show ?thesis by blast
qed

theorem seeding_only_adds_absent_witness:
  "fst (discover_devices two_hosts_env (seen_world 0)) = Inr [host, other_host]
   \<and> fst (seed_devices two_hosts_env 20000000 [host, other_host]
            (snd (discover_devices two_hosts_env (seen_world 0)))) = None
   \<and> map_of (last_activity (seen_world 0)) host = Some 0
   \<and> map_of (last_activity (seen_world 0)) other_host = None
   \<and> map_of (last_activity (snd (seed_devices two_hosts_env 20000000 [host, other_host]
            (snd (discover_devices two_hosts_env (seen_world 0)))))) host = Some 0
   \<and> map_of (last_activity (snd (seed_devices two_hosts_env 20000000 [host, other_host]
            (snd (discover_devices two_hosts_env (seen_world 0)))))) other_host = Some 20000000
   \<and> blocked_ips (snd (seed_devices two_hosts_env 20000000 [host, other_host]
            (snd (discover_devices two_hosts_env (seen_world 0))))) = blocked_ips (seen_world 0)"
proof -
  let ?w = "seen_world 0"
  let ?d = "discover_devices two_hosts_env ?w"
  let ?s = "seed_devices two_hosts_env 20000000 [host, other_host] (snd ?d)"
  have h1: "fst ?d = Inr [host, other_host]" by code_simp
  then have h1': "?d = (Inr [host, other_host], snd ?d)" by (metis prod.collapse)
  have h2: "fst ?s = None" by code_simp
  then have h2': "?s = (None, snd ?s)" by (metis prod.collapse)
  have m: "map_of (last_activity ?w) host = Some 0" "map_of (last_activity ?w) other_host = None"
    "other_host \<noteq> broadcast"
    by code_simp+
  from seeding_only_adds_absent[OF h1' h2'] m
  have "blocked_ips (snd ?s) = blocked_ips ?w
      \<and> map_of (last_activity (snd ?s)) host = Some 0
      \<and> map_of (last_activity (snd ?s)) other_host = Some 20000000"
    by simp
  with h1 h2 m show ?thesis by blast
qed

text \<open>
  C10. The broadcast address is skipped by every evaluation loop, also when it is a key of
  the dictionary: over any run of the process its membership in the blocked set does not
  change (so it is never added), no action is taken on it, and \<open>block_ip\<close> is never entered
  for it.
\<close>

theorem broadcast_is_never_blocked:
  assumes "distinct (map fst (last_activity w))"
    and "idle_checker cfg ins w = (r, w')"
  shows "(broadcast \<in> blocked_ips w' \<longleftrightarrow> broadcast \<in> blocked_ips w)
     \<and> actions_on broadcast w' = actions_on broadcast w
     \<and> enforcements broadcast w' = enforcements broadcast w"
  using idle_checker_gate[OF assms(2,1), of broadcast] by simp

theorem broadcast_is_never_blocked_witness:
  "distinct (map fst (last_activity init_world))
   \<and> map_of (last_activity (snd (idle_checker default_config
        [Frame 0 (Some (host, broadcast)), Cycle 10000000 quiet_env, Cycle 20000000 quiet_env]
        init_world))) broadcast = Some 0
   \<and> blocked_ips (snd (idle_checker default_config
        [Frame 0 (Some (host, broadcast)), Cycle 10000000 quiet_env, Cycle 20000000 quiet_env]
        init_world)) = {host}
   \<and> actions_on broadcast (snd (idle_checker default_config
        [Frame 0 (Some (host, broadcast)), Cycle 10000000 quiet_env, Cycle 20000000 quiet_env]
        init_world)) = []
   \<and> enforcements broadcast (snd (idle_checker default_config
        [Frame 0 (Some (host, broadcast)), Cycle 10000000 quiet_env, Cycle 20000000 quiet_env]
        init_world)) = 0"
proof -
  let ?ins = "[Frame 0 (Some (host, broadcast)), Cycle 10000000 quiet_env, Cycle 20000000 quiet_env]"
  let ?k = "idle_checker default_config ?ins init_world"
  have h1: "distinct (map fst (last_activity init_world))" by code_simp
  have h2: "?k = (fst ?k, snd ?k)" by simp
  have i: "actions_on broadcast init_world = []" "enforcements broadcast init_world = 0"
    by code_simp+
  have c: "map_of (last_activity (snd ?k)) broadcast = Some 0" "blocked_ips (snd ?k) = {host}"
    by code_simp+
  from broadcast_is_never_blocked[OF h1 h2] i
  have "actions_on broadcast (snd ?k) = [] \<and> enforcements broadcast (snd ?k) = 0" by simp
  with h1 c show ?thesis by blast
qed

end
